theory Spec2Isabelle
  imports Main "HOL-Library.Char_ord" "HOL-Library.List_Lexorder" "HOL-Library.Multiset"
    "HOL-Library.Sublist"
begin

section \<open>Paths and file metadata\<close>

type_synonym path = string

text \<open>
  \<^verbatim>\<open>time.Time\<close> values are compared by \<^verbatim>\<open>Before\<close> and \<^verbatim>\<open>After\<close> only, which compare
  instants. An instant is modelled as the integer number of nanoseconds since the epoch.
\<close>

type_synonym time = int

definition Before :: "time \<Rightarrow> time \<Rightarrow> bool" where
  "Before t u = (t < u)"

definition After :: "time \<Rightarrow> time \<Rightarrow> bool" where
  "After t u = (t > u)"

text \<open>\<^verbatim>\<open>Time.Unix()\<close>: whole seconds since the epoch (rounded towards minus infinity).\<close>

definition Unix :: "time \<Rightarrow> int" where
  "Unix t = t div 1000000000"

text \<open>
  \<^verbatim>\<open>os.FileInfo\<close> as the code reads it: \<^verbatim>\<open>Size()\<close>, \<^verbatim>\<open>Mode()\<close>, \<^verbatim>\<open>ModTime()\<close> and
  \<^verbatim>\<open>IsDir()\<close>. Sizes are \<^verbatim>\<open>int64\<close>; the filter only compares them, so they are
  integers here.
\<close>

record os_FileInfo =
  st_Size :: int
  st_Mode :: nat
  st_ModTime :: time
  st_IsDir :: bool

text \<open>\<^verbatim>\<open>filepath.Base\<close> on a Unix system (separator \<^verbatim>\<open>/\<close>, no volume names).\<close>

definition Separator :: char where
  "Separator = CHR ''/''"

definition Base :: "path \<Rightarrow> string" where
  "Base p =
     (if p = [] then ''.''
      else
        let stripped = rev (dropWhile (\<lambda>c. c = Separator) (rev p));
            elem = rev (takeWhile (\<lambda>c. c \<noteq> Separator) (rev stripped))
        in if elem = [] then [Separator] else elem)"

section \<open>Selector: package filter\<close>

text \<open>
  \<^verbatim>\<open>filter.Options\<close>. The two optional cutoffs are pointers in the source (\<^verbatim>\<open>nil\<close> is
  \<open>None\<close>). A compiled regular expression is represented by its \<^verbatim>\<open>MatchString\<close>
  function.
\<close>

record Options =
  OlderThan :: "time option"
  NewerThan :: "time option"
  SizeFilter :: int
  SizeOp :: string
  Exclude :: "string list"
  Include :: "string list"
  Regex :: "(string \<Rightarrow> bool) option"
  SkipHidden :: bool

text \<open>\<^verbatim>\<open>isHidden\<close>: the base name is non-empty and starts with a dot.\<close>

definition isHidden :: "path \<Rightarrow> bool" where
  "isHidden p = (let baseName = Base p in length baseName > 0 \<and> hd baseName = CHR ''.'')"

text \<open>
  \<^verbatim>\<open>MatchesGlob\<close>, and the two pattern loops of \<^verbatim>\<open>Match\<close>, which have the same body: a
  pattern matches when \<^verbatim>\<open>filepath.Match\<close> accepts the base name or the full path. The
  library's glob matcher is the parameter \<open>glob\<close> (pattern first, name second; an
  invalid pattern is a non-match, as the source discards the error).
\<close>

fun MatchesGlob :: "(string \<Rightarrow> string \<Rightarrow> bool) \<Rightarrow> path \<Rightarrow> string list \<Rightarrow> bool" where
  "MatchesGlob glob p [] = False"
| "MatchesGlob glob p (pattern # patterns) =
     (if glob pattern (Base p) then True
      else if glob pattern p then True
      else MatchesGlob glob p patterns)"

text \<open>
  \<^verbatim>\<open>Options.Match\<close>, check by check in the order of the source; the receiver may be
  \<^verbatim>\<open>nil\<close>.
\<close>

definition Match :: "(string \<Rightarrow> string \<Rightarrow> bool) \<Rightarrow> Options option \<Rightarrow> path \<Rightarrow> os_FileInfo \<Rightarrow> bool" where
  "Match glob opt p info =
     (case opt of
        None \<Rightarrow> True
      | Some o' \<Rightarrow>
          if SkipHidden o' \<and> isHidden p then False
          else if (case OlderThan o' of None \<Rightarrow> False | Some t \<Rightarrow> After (st_ModTime info) t) then False
          else if (case NewerThan o' of None \<Rightarrow> False | Some t \<Rightarrow> Before (st_ModTime info) t) then False
          else if SizeFilter o' > 0 \<and> \<not> st_IsDir info \<and>
                  ((SizeOp o' = ''+'' \<and> st_Size info \<le> SizeFilter o') \<or>
                   (SizeOp o' = ''-'' \<and> st_Size info \<ge> SizeFilter o')) then False
          else if length (Include o') > 0 \<and> \<not> MatchesGlob glob p (Include o') then False
          else if length (Exclude o') > 0 \<and> MatchesGlob glob p (Exclude o') then False
          else if (case Regex o' of None \<Rightarrow> False
                   | Some re \<Rightarrow> \<not> re p \<and> \<not> re (Base p)) then False
          else True)"


section \<open>Errors\<close>

text \<open>
  Go errors as values: a failed system call (its name and the path), an error wrapped by
  \<^verbatim>\<open>fmt.Errorf("...: %w", err)\<close>, and a message built by \<^verbatim>\<open>fmt.Errorf("...: %s", s)\<close>.
\<close>

datatype error =
    SysErr string path
  | Wrapped string error
  | Message string string

section \<open>Walker: package scanner\<close>

subsection \<open>The nested loops of the two hand-written sorts\<close>

text \<open>
  \<^verbatim>\<open>sortByDepth\<close> and the sort inside \<^verbatim>\<open>AutoCleanup\<close> are the same pair of loops
  \<^verbatim>\<open>
  for i := 0; i < n-1; i++ {
      for j := 0; j < n-i-1; j++ {
          if <swap condition on xs[j], xs[j+1]> { xs[j], xs[j+1] = xs[j+1], xs[j] }
      }
  }
  \<close>
  over a slice of length \<open>n\<close>, with different swap conditions. The loops are modelled once,
  with the condition as the parameter \<open>swap\<close>. The bounds are written additively
  (\<open>i + 1 < n\<close> for \<open>i < n - 1\<close>, \<open>j + i + 1 < n\<close> for \<open>j < n - i - 1\<close>), which agrees
  with Go's signed arithmetic also for \<open>n = 0\<close>; every index read is in range.
\<close>

definition swap_adjacent :: "nat \<Rightarrow> 'a list \<Rightarrow> 'a list" where
  "swap_adjacent j xs = xs[j := xs ! (j + 1), j + 1 := xs ! j]"

function bubble_inner :: "('a \<Rightarrow> 'a \<Rightarrow> bool) \<Rightarrow> nat \<Rightarrow> nat \<Rightarrow> nat \<Rightarrow> 'a list \<Rightarrow> 'a list" where
  "bubble_inner swap n i j xs =
     (if j + i + 1 < n
      then bubble_inner swap n i (j + 1)
             (if swap (xs ! j) (xs ! (j + 1)) then swap_adjacent j xs else xs)
      else xs)"
  by pat_completeness auto
termination
  by (relation "measure (\<lambda>(swap, n, i, j, xs). n - (j + i + 1))") auto

function bubble_outer :: "('a \<Rightarrow> 'a \<Rightarrow> bool) \<Rightarrow> nat \<Rightarrow> nat \<Rightarrow> 'a list \<Rightarrow> 'a list" where
  "bubble_outer swap n i xs =
     (if i + 1 < n then bubble_outer swap n (i + 1) (bubble_inner swap n i 0 xs) else xs)"
  by pat_completeness auto
termination
  by (relation "measure (\<lambda>(swap, n, i, xs). n - (i + 1))") auto

definition bubble_sort :: "('a \<Rightarrow> 'a \<Rightarrow> bool) \<Rightarrow> 'a list \<Rightarrow> 'a list" where
  "bubble_sort swap xs = bubble_outer swap (length xs) 0 xs"


text \<open>
  One inner loop seen structurally: \<open>k\<close> adjacent comparisons from the front of the
  list. It is used in the proofs only (see \<open>bubble_inner_pass\<close>).
\<close>

fun bubble_pass :: "('a \<Rightarrow> 'a \<Rightarrow> bool) \<Rightarrow> nat \<Rightarrow> 'a list \<Rightarrow> 'a list" where
  "bubble_pass swap 0 xs = xs"
| "bubble_pass swap (Suc k) (x # y # xs) =
     (if swap x y then y # bubble_pass swap k (x # xs) else x # bubble_pass swap k (y # xs))"
| "bubble_pass swap (Suc k) xs = xs"


text \<open>
  What a swap condition must satisfy for the loops to sort: it is asymmetric, and its
  negation is transitive.
\<close>

definition total_swap :: "('a \<Rightarrow> 'a \<Rightarrow> bool) \<Rightarrow> bool" where
  "total_swap swap = ((\<forall>x y. swap x y \<longrightarrow> \<not> swap y x) \<and>
                      (\<forall>x y z. \<not> swap x y \<longrightarrow> \<not> swap y z \<longrightarrow> \<not> swap x z))"


subsection \<open>Candidates and their order\<close>

text \<open>\<^verbatim>\<open>scanner.FileInfo\<close>; \<open>ModTime\<close> is a Unix timestamp in seconds.\<close>

record FileInfo =
  Path :: path
  Size :: int
  Mode :: nat
  ModTime :: int
  IsDir :: bool

text \<open>\<^verbatim>\<open>countSeparators\<close>: the number of \<^verbatim>\<open>/\<close> in the path.\<close>

definition countSeparators :: "path \<Rightarrow> nat" where
  "countSeparators p = length (filter (\<lambda>c. c = Separator) p)"

text \<open>
  The swap condition of \<^verbatim>\<open>sortByDepth\<close>:
  \<^verbatim>\<open>depth1 < depth2 || (depth1 == depth2 && files[j].Path > files[j+1].Path)\<close>.
  Go compares strings bytewise, which is the lexicographic order on \<open>string\<close>.
\<close>

definition depth_swap :: "FileInfo \<Rightarrow> FileInfo \<Rightarrow> bool" where
  "depth_swap f g =
     (let depth1 = countSeparators (Path f); depth2 = countSeparators (Path g)
      in depth1 < depth2 \<or> (depth1 = depth2 \<and> Path f > Path g))"

definition sortByDepth :: "FileInfo list \<Rightarrow> FileInfo list" where
  "sortByDepth files = bubble_sort depth_swap files"

subsection \<open>The file system as the Walker reads it\<close>

text \<open>
  What \<^verbatim>\<open>os.Lstat\<close> and \<^verbatim>\<open>filepath.Walk\<close> can observe below a path: nothing that can be
  statted, a non-directory, a directory with its entries in the order \<^verbatim>\<open>readDirNames\<close>
  returns them (sorted by name), or a directory whose listing fails. The \<open>st_IsDir\<close>
  field stored in a node is not read: \<open>Lstat\<close> sets it from the kind of node.
\<close>

datatype fsnode =
    NoEntry
  | File os_FileInfo
  | Dir os_FileInfo "(string \<times> fsnode) list"
  | DirUnreadable os_FileInfo

text \<open>
  The state of the file system for a scan: what \<^verbatim>\<open>filepath.Abs\<close> answers (it can fail when
  the working directory cannot be determined) and the node at each absolute path.
\<close>

record filesystem =
  fs_Abs :: "path \<Rightarrow> error + path"
  fs_node :: "path \<Rightarrow> fsnode"

fun Lstat :: "path \<Rightarrow> fsnode \<Rightarrow> error + os_FileInfo" where
  "Lstat p NoEntry = Inl (SysErr ''lstat'' p)"
| "Lstat p (File info) = Inr (info\<lparr>st_IsDir := False\<rparr>)"
| "Lstat p (Dir info entries) = Inr (info\<lparr>st_IsDir := True\<rparr>)"
| "Lstat p (DirUnreadable info) = Inr (info\<lparr>st_IsDir := True\<rparr>)"

text \<open>
  \<^verbatim>\<open>filepath.Join(dir, name)\<close> for a clean absolute directory and a plain entry name.
\<close>

definition Join :: "path \<Rightarrow> string \<Rightarrow> path" where
  "Join dir name = (if dir = [Separator] then dir @ name else dir @ [Separator] @ name)"

text \<open>
  \<^verbatim>\<open>filepath.Walk\<close> of the standard library, for a callback that always returns \<^verbatim>\<open>nil\<close>
  (both callbacks of this package do, on every path, so the walk never skips or stops
  by request). The callback gets the path, the \<^verbatim>\<open>FileInfo\<close> (\<^verbatim>\<open>nil\<close> when \<^verbatim>\<open>Lstat\<close>
  failed) and the error of the walk for that path, and updates the state \<open>'s\<close> it closes
  over. A directory is reported before its entries; when its listing fails it is
  reported once, with the error.
\<close>

fun Walk :: "(path \<Rightarrow> os_FileInfo option \<Rightarrow> error option \<Rightarrow> 's \<Rightarrow> 's) \<Rightarrow> path \<Rightarrow> fsnode \<Rightarrow> 's \<Rightarrow> 's"
  and Walk_entries :: "(path \<Rightarrow> os_FileInfo option \<Rightarrow> error option \<Rightarrow> 's \<Rightarrow> 's) \<Rightarrow> path \<Rightarrow> (string \<times> fsnode) list \<Rightarrow> 's \<Rightarrow> 's"
  where
  "Walk fn p NoEntry s = fn p None (Some (SysErr ''lstat'' p)) s"
| "Walk fn p (File info) s = fn p (Some (info\<lparr>st_IsDir := False\<rparr>)) None s"
| "Walk fn p (DirUnreadable info) s =
     fn p (Some (info\<lparr>st_IsDir := True\<rparr>)) (Some (SysErr ''open'' p)) s"
| "Walk fn p (Dir info entries) s =
     Walk_entries fn p entries (fn p (Some (info\<lparr>st_IsDir := True\<rparr>)) None s)"
| "Walk_entries fn p [] s = s"
| "Walk_entries fn p ((name, child) # rest) s =
     Walk_entries fn p rest (Walk fn (Join p name) child s)"

subsection \<open>Scan and ScanWithCallback\<close>

definition mkFileInfo :: "path \<Rightarrow> os_FileInfo \<Rightarrow> bool \<Rightarrow> FileInfo" where
  "mkFileInfo p info isDir =
     \<lparr>Path = p, Size = st_Size info, Mode = st_Mode info,
      ModTime = Unix (st_ModTime info), IsDir = isDir\<rparr>"

text \<open>
  The function literal \<^verbatim>\<open>Scan\<close> passes to \<^verbatim>\<open>filepath.Walk\<close>; its state is the slice
  \<^verbatim>\<open>files\<close>. (A \<^verbatim>\<open>nil\<close> info without an error does not occur in a walk.)
\<close>

definition Scan_visit ::
  "(string \<Rightarrow> string \<Rightarrow> bool) \<Rightarrow> Options option \<Rightarrow>
   path \<Rightarrow> os_FileInfo option \<Rightarrow> error option \<Rightarrow> FileInfo list \<Rightarrow> FileInfo list" where
  "Scan_visit glob filterOpts filePath fileInfo walkErr files =
     (if walkErr \<noteq> None then files
      else case fileInfo of
        None \<Rightarrow> files
      | Some info \<Rightarrow>
          if filterOpts \<noteq> None \<and> \<not> Match glob filterOpts filePath info then files
          else files @ [mkFileInfo filePath info (st_IsDir info)])"

text \<open>
  \<^verbatim>\<open>Scan\<close>. \<open>Scan_accumulated\<close> is the same code without the call of \<^verbatim>\<open>sortByDepth\<close>:
  the slice \<^verbatim>\<open>files\<close> as \<^verbatim>\<open>Scan\<close> holds it when it returns early or reaches the sort.
\<close>

definition Scan_accumulated ::
  "(string \<Rightarrow> string \<Rightarrow> bool) \<Rightarrow> filesystem \<Rightarrow> path \<Rightarrow> bool \<Rightarrow> Options option \<Rightarrow>
   error + FileInfo list" where
  "Scan_accumulated glob fs p recursive filterOpts =
     (case fs_Abs fs p of
        Inl err \<Rightarrow> Inl err
      | Inr absPath \<Rightarrow>
          (case Lstat absPath (fs_node fs absPath) of
             Inl err \<Rightarrow> Inl err
           | Inr info \<Rightarrow>
               if \<not> st_IsDir info then
                 Inr (if filterOpts = None \<or> Match glob filterOpts absPath info
                      then [mkFileInfo absPath info False] else [])
               else if \<not> recursive then
                 Inr (if filterOpts = None \<or> Match glob filterOpts absPath info
                      then [mkFileInfo absPath info True] else [])
               else
                 Inr (Walk (Scan_visit glob filterOpts) absPath (fs_node fs absPath) [])))"

definition Scan ::
  "(string \<Rightarrow> string \<Rightarrow> bool) \<Rightarrow> filesystem \<Rightarrow> path \<Rightarrow> bool \<Rightarrow> Options option \<Rightarrow>
   error + FileInfo list" where
  "Scan glob fs p recursive filterOpts =
     (case fs_Abs fs p of
        Inl err \<Rightarrow> Inl err
      | Inr absPath \<Rightarrow>
          (case Lstat absPath (fs_node fs absPath) of
             Inl err \<Rightarrow> Inl err
           | Inr info \<Rightarrow>
               if \<not> st_IsDir info then
                 Inr (if filterOpts = None \<or> Match glob filterOpts absPath info
                      then [mkFileInfo absPath info False] else [])
               else if \<not> recursive then
                 Inr (if filterOpts = None \<or> Match glob filterOpts absPath info
                      then [mkFileInfo absPath info True] else [])
               else
                 Inr (sortByDepth
                        (Walk (Scan_visit glob filterOpts) absPath (fs_node fs absPath) []))))"

text \<open>
  \<^verbatim>\<open>ScanWithCallback\<close>. The callback updates a state of the caller's; the result is the
  error (if any) and that state.
\<close>

definition ScanWithCallback_visit ::
  "(string \<Rightarrow> string \<Rightarrow> bool) \<Rightarrow> Options option \<Rightarrow> (FileInfo \<Rightarrow> 's \<Rightarrow> 's) \<Rightarrow>
   path \<Rightarrow> os_FileInfo option \<Rightarrow> error option \<Rightarrow> 's \<Rightarrow> 's" where
  "ScanWithCallback_visit glob filterOpts callback filePath fileInfo walkErr s =
     (if walkErr \<noteq> None then s
      else case fileInfo of
        None \<Rightarrow> s
      | Some info \<Rightarrow>
          if filterOpts \<noteq> None \<and> \<not> Match glob filterOpts filePath info then s
          else callback (mkFileInfo filePath info (st_IsDir info)) s)"

definition ScanWithCallback ::
  "(string \<Rightarrow> string \<Rightarrow> bool) \<Rightarrow> filesystem \<Rightarrow> path \<Rightarrow> bool \<Rightarrow> Options option \<Rightarrow>
   (FileInfo \<Rightarrow> 's \<Rightarrow> 's) \<Rightarrow> 's \<Rightarrow> error option \<times> 's" where
  "ScanWithCallback glob fs p recursive filterOpts callback s =
     (case fs_Abs fs p of
        Inl err \<Rightarrow> (Some err, s)
      | Inr absPath \<Rightarrow>
          (case Lstat absPath (fs_node fs absPath) of
             Inl err \<Rightarrow> (Some err, s)
           | Inr info \<Rightarrow>
               if \<not> st_IsDir info then
                 (None, if filterOpts = None \<or> Match glob filterOpts absPath info
                        then callback (mkFileInfo absPath info False) s else s)
               else if \<not> recursive then
                 (None, if filterOpts = None \<or> Match glob filterOpts absPath info
                        then callback (mkFileInfo absPath info True) s else s)
               else
                 (None, Walk (ScanWithCallback_visit glob filterOpts callback) absPath
                          (fs_node fs absPath) s)))"

section \<open>Deletion Engine: package deleter\<close>

subsection \<open>Operations on the outside world\<close>

text \<open>
  The engine acts on the world through system calls and through the trash manager. Each
  such call is an \<open>io_op\<close>; the calls made so far are the trace. The world is a function
  \<open>env\<close> that, given the trace and the next call, says whether the call fails (and with
  which error). \<^verbatim>\<open>Write fl k\<close> is one \<^verbatim>\<open>f.Write\<close> of a \<open>k\<close>-byte slice of the buffer,
  filled by \<^verbatim>\<open>rand.Read\<close> (\<open>Random\<close>; \<^verbatim>\<open>crypto/rand\<close> fills the slice entirely and its
  result is not checked by the source) or with zero bytes (\<open>Zeros\<close>).
  \<^verbatim>\<open>MoveToTrash\<close> is the call of the trash manager's method of that name.
\<close>

datatype fill = Random | Zeros

datatype io_op =
    OpenWrite path
  | Seek0
  | Write fill nat
  | Sync
  | Close
  | Remove path
  | MoveToTrash path

type_synonym env = "io_op list \<Rightarrow> io_op \<Rightarrow> error option"

definition do_op :: "env \<Rightarrow> io_op \<Rightarrow> io_op list \<Rightarrow> error option \<times> io_op list" where
  "do_op env op tr = (env tr op, tr @ [op])"

subsection \<open>shredFile\<close>

text \<open>
  The inner loop of \<^verbatim>\<open>shredFile\<close>: \<^verbatim>\<open>for remaining > 0\<close>, writing
  \<^verbatim>\<open>min(len(buf), remaining)\<close> bytes of a 64 KiB buffer. A \<^verbatim>\<open>Write\<close> that returns no
  error has written the whole slice (the contract of \<^verbatim>\<open>io.Writer\<close>), so \<^verbatim>\<open>remaining\<close>
  decreases by \<open>toWrite\<close>. On an error the loop returns it; the caller closes the file.
\<close>

function write_loop :: "env \<Rightarrow> fill \<Rightarrow> int \<Rightarrow> io_op list \<Rightarrow> error option \<times> io_op list" where
  "write_loop env fl remaining tr =
     (if remaining > 0 then
        let toWrite = (if 65536 > remaining then remaining else 65536) in
        case do_op env (Write fl (nat toWrite)) tr of
          (Some err, tr') \<Rightarrow> (Some err, tr')
        | (None, tr') \<Rightarrow> write_loop env fl (remaining - toWrite) tr'
      else (None, tr))"
  by pat_completeness auto
termination
  by (relation "measure (\<lambda>(env, fl, remaining, tr). nat remaining)") auto

text \<open>
  The outer loop \<^verbatim>\<open>for pass := 0; pass < passes; pass++\<close> with \<^verbatim>\<open>passes = 3\<close>: seek to
  the start, overwrite, sync. Each error path closes the file (the result of \<^verbatim>\<open>Close\<close>
  is discarded) and returns the error. \<open>sz\<close> is \<^verbatim>\<open>file.Size\<close>, read once before the
  loop.
\<close>

function shred_passes :: "env \<Rightarrow> int \<Rightarrow> nat \<Rightarrow> io_op list \<Rightarrow> error option \<times> io_op list" where
  "shred_passes env sz pass tr =
     (if pass < 3 then
        case do_op env Seek0 tr of
          (Some err, tr1) \<Rightarrow> (Some err, tr1 @ [Close])
        | (None, tr1) \<Rightarrow>
            (case write_loop env (if pass mod 2 = 0 then Random else Zeros) sz tr1 of
               (Some err, tr2) \<Rightarrow> (Some err, tr2 @ [Close])
             | (None, tr2) \<Rightarrow>
                 (case do_op env Sync tr2 of
                    (Some err, tr3) \<Rightarrow> (Some err, tr3 @ [Close])
                  | (None, tr3) \<Rightarrow> shred_passes env sz (pass + 1) tr3))
      else (None, tr))"
  by pat_completeness auto
termination
  by (relation "measure (\<lambda>(env, sz, pass, tr). 3 - pass)") auto

text \<open>
\<^verbatim>\<open>shredFile\<close>: open for writing, the three passes, close, remove.
\<close>

definition shredFile :: "env \<Rightarrow> FileInfo \<Rightarrow> io_op list \<Rightarrow> error option \<times> io_op list" where
  "shredFile env file tr =
     (case do_op env (OpenWrite (Path file)) tr of
        (Some err, tr1) \<Rightarrow> (Some err, tr1)
      | (None, tr1) \<Rightarrow>
          (case shred_passes env (Size file) 0 tr1 of
             (Some err, tr2) \<Rightarrow> (Some err, tr2)
           | (None, tr2) \<Rightarrow> do_op env (Remove (Path file)) (tr2 @ [Close])))"

text \<open>
  The writes of one full pass over \<open>n\<close> bytes, stated independently of the loop: as many
  chunks of 64 KiB as fit, then the rest; and a full pass; and the bytes a list of
  operations writes.
\<close>

definition chunks :: "fill \<Rightarrow> int \<Rightarrow> io_op list" where
  "chunks fl n =
     replicate (nat (n div 65536)) (Write fl 65536) @
     (if n > 0 \<and> n mod 65536 \<noteq> 0 then [Write fl (nat (n mod 65536))] else [])"

definition overwrite_pass :: "fill \<Rightarrow> int \<Rightarrow> io_op list" where
  "overwrite_pass fl n = [Seek0] @ chunks fl n @ [Sync]"

fun written_bytes :: "io_op list \<Rightarrow> nat" where
  "written_bytes [] = 0"
| "written_bytes (Write fl k # ops) = k + written_bytes ops"
| "written_bytes (op # ops) = written_bytes ops"

text \<open>
An operation stages an item into the trash when it is a \<^verbatim>\<open>MoveToTrash\<close>.
\<close>

fun is_stage :: "io_op \<Rightarrow> bool" where
  "is_stage (MoveToTrash p) = True"
| "is_stage op = False"

subsection \<open>The Deleter\<close>

text \<open>
  \<^verbatim>\<open>trash.Manager\<close>: the staging directory and the metadata directory, each a clean
  absolute path given by its elements.
\<close>

record Manager =
  trashDir :: "string list"
  metaDir :: "string list"

text \<open>
\<^verbatim>\<open>Deleter\<close> and \<^verbatim>\<open>New\<close>; \<open>trashMgr\<close> is a pointer that may be \<^verbatim>\<open>nil\<close>.
\<close>

record Deleter =
  workers :: int
  shred :: bool
  trashMgr :: "Manager option"

definition New :: "int \<Rightarrow> bool \<Rightarrow> Manager option \<Rightarrow> Deleter" where
  "New w s t = \<lparr>workers = (if w \<le> 0 then 8 else w), shred = s, trashMgr = t\<rparr>"

definition softDelete :: "Deleter \<Rightarrow> env \<Rightarrow> FileInfo \<Rightarrow> io_op list \<Rightarrow> error option \<times> io_op list" where
  "softDelete d env file tr =
     (if trashMgr d = None then do_op env (Remove (Path file)) tr
      else do_op env (MoveToTrash (Path file)) tr)"


text \<open>
What a worker does with one file it has received from the channel.
\<close>

definition worker_body :: "Deleter \<Rightarrow> env \<Rightarrow> FileInfo \<Rightarrow> io_op list \<Rightarrow> error option \<times> io_op list" where
  "worker_body d env file tr =
     (if shred d then shredFile env file tr else softDelete d env file tr)"

subsection \<open>deleteFilesConcurrently: the worker pool\<close>

text \<open>
  The goroutines of \<^verbatim>\<open>deleteFilesConcurrently\<close> as a transition system. The state holds
  what the main goroutine still has to do (\<open>to_start\<close> iterations of the loop that starts
  workers, the files \<open>to_send\<close>, whether the channel is closed), the buffered channel
  \<open>workChan\<close> (its capacity is the number of files, so a send never blocks), one entry per
  started worker (\<open>Receiving\<close>: at \<^verbatim>\<open>range workChan\<close>; \<open>Holding f\<close>: has received \<open>f\<close>;
  \<open>Returned\<close>: left the loop and called \<^verbatim>\<open>wg.Done\<close>), the trace of operations and the
  calls of \<^verbatim>\<open>onProgress\<close> so far (path and error, in the order of the calls).

  An \<open>action\<close> is one step of one goroutine, chosen by the scheduler; \<open>pool_step\<close> is
  \<open>None\<close> when that step is not enabled. A worker handles the file it holds in one step
  (the operation and the progress call). A worker leaves its loop only when the channel
  is closed and empty.
\<close>

datatype goroutine = Receiving | Holding FileInfo | Returned








subsection \<open>Delete\<close>




text \<open>
  For the proofs: the files held by workers, and the invariant of the pool (every file
  is still to be sent, in the channel, held by a worker or reported; the number of
  workers; nothing is sent after the close; a worker has returned only if the channel is
  closed and empty).
\<close>

fun held :: "goroutine list \<Rightarrow> FileInfo list" where
  "held [] = []"
| "held (Holding f # gs) = f # held gs"
| "held (g # gs) = held gs"


section \<open>Trash Store: package trash\<close>

subsection \<open>The file system as the Trash Store uses it\<close>

text \<open>
  The manager works on clean absolute paths. Such a path is modelled by the list of its
  elements (\<^verbatim>\<open>/home/u/x\<close> is \<open>[''home'', ''u'', ''x'']\<close>, the root is \<open>[]\<close>): then
  \<^verbatim>\<open>filepath.Dir\<close> is \<open>butlast\<close>, the base name is \<open>last\<close>, \<^verbatim>\<open>filepath.Join(dir, name)\<close> is
  \<open>dir @ [name]\<close>, and a path lies in the tree below another when the other is a prefix of
  it. \<open>path_string\<close> is the path as text.
\<close>

type_synonym cpath = "string list"

definition path_string :: "cpath \<Rightarrow> string" where
  "path_string p = (if p = [] then [Separator] else concat (map (\<lambda>c. Separator # c) p))"

text \<open>\<^verbatim>\<open>TrashEntry\<close>, the record stored as JSON in the metadata directory.\<close>

record TrashEntry =
  OriginalPath :: cpath
  TrashPath :: cpath
  DeletedAt :: time
  entry_Size :: int
  entry_IsDir :: bool

text \<open>
  What exists at a path: a regular file, with its size and with what \<^verbatim>\<open>json.Unmarshal\<close>
  makes of its bytes (\<open>None\<close> when they are not a record), or a directory.
\<close>

datatype node = FileObj int "TrashEntry option" | DirObj

text \<open>
  The file system: the existing paths with what is there, and what makes operations
  fail: directories whose entries can be neither created nor removed (\<open>readonly\<close>), a
  full disk (nothing can be created), and the pairs of paths between which a rename
  fails because they are on different volumes.
\<close>

record trashfs =
  objects :: "(cpath \<times> node) list"
  readonly :: "cpath list"
  disk_full :: bool
  cross_device :: "cpath \<Rightarrow> cpath \<Rightarrow> bool"

text \<open>The root always exists.\<close>

definition lookup :: "trashfs \<Rightarrow> cpath \<Rightarrow> node option" where
  "lookup fs p = (if p = [] then Some DirObj else map_of (objects fs) p)"

text \<open>An entry can be created or removed when its parent directory is not read-only.\<close>

definition entry_writable :: "trashfs \<Rightarrow> cpath \<Rightarrow> bool" where
  "entry_writable fs p = (butlast p \<notin> set (readonly fs))"

text \<open>
  \<^verbatim>\<open>os.RemoveAll\<close> removes what it can below the path and reports an error when something is
  left. A path is left when it, or something below it, cannot be unlinked. Removing a
  path that does not exist is no error.
\<close>

definition has_stuck :: "trashfs \<Rightarrow> cpath \<Rightarrow> bool" where
  "has_stuck fs q = list_ex (\<lambda>(u, n). prefix q u \<and> \<not> entry_writable fs u) (objects fs)"

definition RemoveAll :: "cpath \<Rightarrow> trashfs \<Rightarrow> error option \<times> trashfs" where
  "RemoveAll p fs =
     (let objs = filter (\<lambda>(q, n). \<not> prefix p q \<or> has_stuck fs q) (objects fs)
      in (if list_ex (\<lambda>(q, n). prefix p q) objs
          then Some (SysErr ''unlinkat'' (path_string p)) else None,
          fs\<lparr>objects := objs\<rparr>))"


text \<open>
  \<^verbatim>\<open>os.Mkdir\<close> and \<^verbatim>\<open>os.MkdirAll\<close> (a directory that exists is fine, a file in the way is an
  error, missing parents are created first).
\<close>

definition Mkdir :: "cpath \<Rightarrow> trashfs \<Rightarrow> error option \<times> trashfs" where
  "Mkdir p fs =
     (if lookup fs p \<noteq> None \<or> lookup fs (butlast p) \<noteq> Some DirObj \<or>
         \<not> entry_writable fs p \<or> disk_full fs
      then (Some (SysErr ''mkdir'' (path_string p)), fs)
      else (None, fs\<lparr>objects := (p, DirObj) # objects fs\<rparr>))"

function MkdirAll :: "cpath \<Rightarrow> trashfs \<Rightarrow> error option \<times> trashfs" where
  "MkdirAll p fs =
     (case lookup fs p of
        Some DirObj \<Rightarrow> (None, fs)
      | Some (FileObj sz parsed) \<Rightarrow> (Some (SysErr ''mkdir'' (path_string p)), fs)
      | None \<Rightarrow>
          (case MkdirAll (butlast p) fs of
             (Some err, fs') \<Rightarrow> (Some err, fs')
           | (None, fs') \<Rightarrow> Mkdir p fs'))"
  by pat_completeness auto

termination
  by (relation "measure (\<lambda>(p, fs). length p)") (auto simp: lookup_def split: if_splits)

text \<open>\<^verbatim>\<open>os.ReadDir\<close>: the names of the entries of a directory, sorted.\<close>

definition ReadDir :: "trashfs \<Rightarrow> cpath \<Rightarrow> error + string list" where
  "ReadDir fs d =
     (if lookup fs d = Some DirObj
      then Inr (sort (remdups (map (\<lambda>(q, n). last q)
                  (filter (\<lambda>(q, n). q \<noteq> [] \<and> butlast q = d) (objects fs)))))
      else Inl (SysErr ''open'' (path_string d)))"

subsection \<open>Empty\<close>

definition Empty :: "Manager \<Rightarrow> trashfs \<Rightarrow> error option \<times> trashfs" where
  "Empty m fs =
     (case RemoveAll (trashDir m) fs of
        (Some err, fs1) \<Rightarrow> (Some (Wrapped ''failed to empty trash'' err), fs1)
      | (None, fs1) \<Rightarrow>
          (case RemoveAll (metaDir m) fs1 of
             (Some err, fs2) \<Rightarrow> (Some (Wrapped ''failed to remove metadata'' err), fs2)
           | (None, fs2) \<Rightarrow>
               (case MkdirAll (trashDir m) fs2 of
                  (Some err, fs3) \<Rightarrow> (Some err, fs3)
                | (None, fs3) \<Rightarrow> MkdirAll (metaDir m) fs3)))"

declare MkdirAll.simps [simp del]

subsection \<open>List\<close>








subsection \<open>AutoCleanup\<close>

text \<open>
  \<^verbatim>\<open>filepath.Join(m.metaDir, filepath.Base(entry.TrashPath)+".json")\<close>. The base name of
  the root is \<^verbatim>\<open>/\<close>, which \<^verbatim>\<open>Join\<close> cleans away.
\<close>

definition base_name :: "cpath \<Rightarrow> string" where
  "base_name p = (if p = [] then [] else last p)"










subsection \<open>Notions for the proofs about the Trash Store\<close>

text \<open>
  For the proofs: the state a successful \<^verbatim>\<open>Empty\<close> leaves. Both directories exist and
  have no entries, their parents exist, and the last creation of each shows that entries
  can be made and removed there.
\<close>

definition purged :: "Manager \<Rightarrow> trashfs \<Rightarrow> bool" where
  "purged m fs =
     (trashDir m \<noteq> [] \<and> metaDir m \<noteq> [] \<and>
      lookup fs (trashDir m) = Some DirObj \<and> lookup fs (metaDir m) = Some DirObj \<and>
      (\<forall>(q, n) \<in> set (objects fs).
         \<not> strict_prefix (trashDir m) q \<and> \<not> strict_prefix (metaDir m) q) \<and>
      entry_writable fs (trashDir m) \<and> entry_writable fs (metaDir m) \<and> \<not> disk_full fs \<and>
      lookup fs (butlast (trashDir m)) = Some DirObj \<and>
      lookup fs (butlast (metaDir m)) = Some DirObj)"

text \<open>
  For the proofs. The sweep only removes: in the later state every path has what it had
  before or nothing, and the read-only directories are the same.
\<close>

definition shrinks :: "trashfs \<Rightarrow> trashfs \<Rightarrow> bool" where
  "shrinks fs fs' =
     ((\<forall>q n. lookup fs' q = Some n \<longrightarrow> lookup fs q = Some n) \<and>
      (\<forall>q. lookup fs q = None \<longrightarrow> lookup fs' q = None) \<and>
      set (objects fs') \<subseteq> set (objects fs) \<and> readonly fs' = readonly fs)"



text \<open>
  The naming \<^verbatim>\<open>MoveToTrash\<close> establishes: a metadata record is stored under the base name
  of its staged path, followed by \<^verbatim>\<open>.json\<close>.
\<close>

definition store_wf :: "Manager \<Rightarrow> trashfs \<Rightarrow> bool" where
  "store_wf m fs =
     (\<forall>name sz e. lookup fs (metaDir m @ [name]) = Some (FileObj sz (Some e)) \<longrightarrow>
                  name = base_name (TrashPath e) @ ''.json'')"





section \<open>Examples\<close>

subsection \<open>A small tree for examples\<close>

text \<open>
  Two directories: \<^verbatim>\<open>/a\<close> holds \<^verbatim>\<open>b/c.txt\<close>, and \<^verbatim>\<open>/t\<close> holds the files \<^verbatim>\<open>x\<close> and \<^verbatim>\<open>y\<close>.
  Every other path cannot be statted.
\<close>

definition example_info :: os_FileInfo where
  "example_info = \<lparr>st_Size = 3, st_Mode = 420, st_ModTime = 5000000000, st_IsDir = False\<rparr>"

definition example_fs :: filesystem where
  "example_fs =
     \<lparr>fs_Abs = Inr,
      fs_node = (\<lambda>q. if q = ''/a''
                 then Dir example_info [(''b'', Dir example_info [(''c.txt'', File example_info)])]
                 else if q = ''/t''
                 then Dir example_info [(''x'', File example_info), (''y'', File example_info)]
                 else NoEntry)\<rparr>"

subsection \<open>A small trash\<close>

text \<open>
  The manager of the user \<^verbatim>\<open>u\<close>; a trash with staged files and their records;
  what is left of it after \<^verbatim>\<open>Empty\<close> and after a sweep; and a trash with a staged
  directory whose entries cannot be removed.
\<close>

definition example_manager :: Manager where
  "example_manager =
     \<lparr>trashDir = [''home'', ''u'', ''.nuke-trash'', ''files''],
      metaDir = [''home'', ''u'', ''.nuke-trash'', ''meta'']\<rparr>"

definition example_entry :: "string \<Rightarrow> time \<Rightarrow> TrashEntry" where
  "example_entry name t =
     \<lparr>OriginalPath = [''home'', ''u'', ''docs'', name],
      TrashPath = [''home'', ''u'', ''.nuke-trash'', ''files'', ''1_'' @ name],
      DeletedAt = t, entry_Size = 10240, entry_IsDir = False\<rparr>"

definition example_store :: trashfs where
  "example_store =
     \<lparr>objects =
        [([''home''], DirObj), ([''home'', ''u''], DirObj),
         ([''home'', ''u'', ''.nuke-trash''], DirObj),
         ([''home'', ''u'', ''.nuke-trash'', ''files''], DirObj),
         ([''home'', ''u'', ''.nuke-trash'', ''meta''], DirObj),
         ([''home'', ''u'', ''.nuke-trash'', ''files'', ''1_old.txt''], FileObj 10240 None),
         ([''home'', ''u'', ''.nuke-trash'', ''meta'', ''1_old.txt.json''],
            FileObj 200 (Some (example_entry ''old.txt'' 0))),
         ([''home'', ''u'', ''.nuke-trash'', ''files'', ''1_new.txt''], FileObj 10240 None),
         ([''home'', ''u'', ''.nuke-trash'', ''meta'', ''1_new.txt.json''],
            FileObj 200 (Some (example_entry ''new.txt'' 3369600000000000)))],
      readonly = [], disk_full = False, cross_device = (\<lambda>p q. False)\<rparr>"

definition example_purged :: trashfs where
  "example_purged =
     \<lparr>objects =
        [([''home'', ''u'', ''.nuke-trash'', ''meta''], DirObj),
         ([''home'', ''u'', ''.nuke-trash'', ''files''], DirObj),
         ([''home''], DirObj), ([''home'', ''u''], DirObj),
         ([''home'', ''u'', ''.nuke-trash''], DirObj)],
      readonly = [], disk_full = False, cross_device = (\<lambda>p q. False)\<rparr>"





section \<open>Properties of the Selector\<close>

text \<open>
  Claim C7. With a newer-than cutoff \<open>T\<close>, every entry modified strictly before \<open>T\<close> is
  rejected whatever the other filters are, and for an entry modified at \<open>T\<close> or later the
  answer is the one the same options give without the cutoff: the check itself does not
  reject it.
\<close>

theorem Match_NewerThan_boundary:
  "(NewerThan opts = Some T \<and> st_ModTime info < T \<longrightarrow> \<not> Match glob (Some opts) p info) \<and>
   (NewerThan opts = Some T \<and> st_ModTime info \<ge> T \<longrightarrow>
      Match glob (Some opts) p info = Match glob (Some (opts\<lparr>NewerThan := None\<rparr>)) p info)"
  by (auto simp: Match_def Before_def split: option.splits)

theorem Match_NewerThan_boundary_witness:
  "\<not> Match (\<lambda>pat name. False)
       (Some \<lparr>OlderThan = None, NewerThan = Some 100, SizeFilter = 0, SizeOp = [],
              Exclude = [], Include = [], Regex = None, SkipHidden = False\<rparr>)
       ''/tmp/a.txt'' \<lparr>st_Size = 5, st_Mode = 420, st_ModTime = 99, st_IsDir = False\<rparr> \<and>
   Match (\<lambda>pat name. False)
       (Some \<lparr>OlderThan = None, NewerThan = Some 100, SizeFilter = 0, SizeOp = [],
              Exclude = [], Include = [], Regex = None, SkipHidden = False\<rparr>)
       ''/tmp/a.txt'' \<lparr>st_Size = 5, st_Mode = 420, st_ModTime = 100, st_IsDir = False\<rparr>"
  using
    Match_NewerThan_boundary [of
      "\<lparr>OlderThan = None, NewerThan = Some 100, SizeFilter = 0, SizeOp = [],
        Exclude = [], Include = [], Regex = None, SkipHidden = False\<rparr>" 100
      "\<lparr>st_Size = 5, st_Mode = 420, st_ModTime = 99, st_IsDir = False\<rparr>"
      "\<lambda>pat name. False" "''/tmp/a.txt''"]
    Match_NewerThan_boundary [of
      "\<lparr>OlderThan = None, NewerThan = Some 100, SizeFilter = 0, SizeOp = [],
        Exclude = [], Include = [], Regex = None, SkipHidden = False\<rparr>" 100
      "\<lparr>st_Size = 5, st_Mode = 420, st_ModTime = 100, st_IsDir = False\<rparr>"
      "\<lambda>pat name. False" "''/tmp/a.txt''"]
  by (simp add: Match_def)

text \<open>
  Claim C6, as the code has it. The size check is guarded by \<open>SizeFilter > 0\<close>: with a
  positive threshold and direction \<open>+\<close>, a regular file of exactly the threshold size is
  rejected and one of size threshold + 1 gets the answer the same options give without a
  size filter; a threshold that is not positive switches the check off; and a directory
  gets the answer without the size filter for either direction.
\<close>

theorem Match_size_filter:
  "(0 < SizeFilter opts \<and> SizeOp opts = ''+'' \<and> \<not> st_IsDir info \<and>
      st_Size info = SizeFilter opts \<longrightarrow> \<not> Match glob (Some opts) p info) \<and>
   (SizeOp opts = ''+'' \<and> st_Size info = SizeFilter opts + 1 \<longrightarrow>
      Match glob (Some opts) p info = Match glob (Some (opts\<lparr>SizeFilter := 0\<rparr>)) p info) \<and>
   (SizeFilter opts \<le> 0 \<longrightarrow>
      Match glob (Some opts) p info = Match glob (Some (opts\<lparr>SizeFilter := 0\<rparr>)) p info) \<and>
   (st_IsDir info \<longrightarrow>
      Match glob (Some opts) p info = Match glob (Some (opts\<lparr>SizeFilter := 0\<rparr>)) p info)"
  by (auto simp: Match_def split: option.splits)

theorem Match_size_filter_witness:
  "\<not> Match (\<lambda>pat name. False)
       (Some \<lparr>OlderThan = None, NewerThan = None, SizeFilter = 1024, SizeOp = ''+'',
              Exclude = [], Include = [], Regex = None, SkipHidden = False\<rparr>)
       ''/tmp/a.txt'' \<lparr>st_Size = 1024, st_Mode = 420, st_ModTime = 7, st_IsDir = False\<rparr> \<and>
   Match (\<lambda>pat name. False)
       (Some \<lparr>OlderThan = None, NewerThan = None, SizeFilter = 1024, SizeOp = ''+'',
              Exclude = [], Include = [], Regex = None, SkipHidden = False\<rparr>)
       ''/tmp/a.txt'' \<lparr>st_Size = 1025, st_Mode = 420, st_ModTime = 7, st_IsDir = False\<rparr> \<and>
   Match (\<lambda>pat name. False)
       (Some \<lparr>OlderThan = None, NewerThan = None, SizeFilter = 1024, SizeOp = ''-'',
              Exclude = [], Include = [], Regex = None, SkipHidden = False\<rparr>)
       ''/tmp/d'' \<lparr>st_Size = 4096, st_Mode = 493, st_ModTime = 7, st_IsDir = True\<rparr>"
  using
    Match_size_filter [of
      "\<lparr>OlderThan = None, NewerThan = None, SizeFilter = 1024, SizeOp = ''+'',
        Exclude = [], Include = [], Regex = None, SkipHidden = False\<rparr>"
      "\<lparr>st_Size = 1024, st_Mode = 420, st_ModTime = 7, st_IsDir = False\<rparr>"
      "\<lambda>pat name. False" "''/tmp/a.txt''"]
    Match_size_filter [of
      "\<lparr>OlderThan = None, NewerThan = None, SizeFilter = 1024, SizeOp = ''+'',
        Exclude = [], Include = [], Regex = None, SkipHidden = False\<rparr>"
      "\<lparr>st_Size = 1025, st_Mode = 420, st_ModTime = 7, st_IsDir = False\<rparr>"
      "\<lambda>pat name. False" "''/tmp/a.txt''"]
    Match_size_filter [of
      "\<lparr>OlderThan = None, NewerThan = None, SizeFilter = 1024, SizeOp = ''-'',
        Exclude = [], Include = [], Regex = None, SkipHidden = False\<rparr>"
      "\<lparr>st_Size = 4096, st_Mode = 493, st_ModTime = 7, st_IsDir = True\<rparr>"
      "\<lambda>pat name. False" "''/tmp/d''"]
  by (simp add: Match_def)

text \<open>
  The claim without the guard fails: the filter \<open>(0, +)\<close>, which \<^verbatim>\<open>--size +0\<close>
  configures, admits an empty regular file, whose size is exactly the threshold.
\<close>

theorem Match_size_filter_counterexample:
  "SizeOp \<lparr>OlderThan = None, NewerThan = None, SizeFilter = 0, SizeOp = ''+'',
           Exclude = [], Include = [], Regex = None, SkipHidden = False\<rparr> = ''+'' \<and>
   st_Size \<lparr>st_Size = 0, st_Mode = 420, st_ModTime = 7, st_IsDir = False\<rparr> =
     SizeFilter \<lparr>OlderThan = None, NewerThan = None, SizeFilter = 0, SizeOp = ''+'',
                 Exclude = [], Include = [], Regex = None, SkipHidden = False\<rparr> \<and>
   Match (\<lambda>pat name. False)
       (Some \<lparr>OlderThan = None, NewerThan = None, SizeFilter = 0, SizeOp = ''+'',
              Exclude = [], Include = [], Regex = None, SkipHidden = False\<rparr>)
       ''/tmp/empty'' \<lparr>st_Size = 0, st_Mode = 420, st_ModTime = 7, st_IsDir = False\<rparr>"
  by (simp add: Match_def)

section \<open>The sorting loops sort\<close>

declare bubble_inner.simps [simp del] bubble_outer.simps [simp del]

lemma length_swap_adjacent [simp]: "length (swap_adjacent j xs) = length xs"
  by (simp add: swap_adjacent_def)

lemma swap_adjacent_append:
  "length pre = j \<Longrightarrow> swap_adjacent j (pre @ a # b # rest) = pre @ b # a # rest"
  by (simp add: swap_adjacent_def list_update_append nth_append)

lemma drop_two:
  assumes "j + 1 < length xs"
  shows "drop j xs = xs ! j # xs ! (j + 1) # drop (j + 2) xs"
proof -
  have "drop j xs = xs ! j # drop (Suc j) xs"
    using assms by (simp add: Cons_nth_drop_Suc)
  moreover have "drop (Suc j) xs = xs ! (Suc j) # drop (Suc (Suc j)) xs"
    using assms by (simp add: Cons_nth_drop_Suc)
  ultimately show ?thesis
    by simp
qed

lemma split_at_two:
  assumes "j + 1 < length xs"
  shows "xs = take j xs @ xs ! j # xs ! (j + 1) # drop (j + 2) xs"
  using drop_two [OF assms] append_take_drop_id [of j xs] by simp

lemma bubble_inner_pass:
  "length xs = n \<Longrightarrow>
   bubble_inner swap n i j xs = take j xs @ bubble_pass swap (n - i - 1 - j) (drop j xs)"
proof (induction swap n i j xs rule: bubble_inner.induct)
  case (1 swap n i j xs)
  show ?case
  proof (cases "j + i + 1 < n")
    case False
    then have "n - i - 1 - j = 0" by simp
    with False show ?thesis
      by (simp add: bubble_inner.simps [of swap n i j xs])
  next
    case True
    define pre where "pre = take j xs"
    define a where "a = xs ! j"
    define b where "b = xs ! (j + 1)"
    define rest where "rest = drop (j + 2) xs"
    define k where "k = n - i - 1 - (j + 1)"
    have len: "j + 1 < length xs" using True "1.prems" by simp
    have xs: "xs = pre @ a # b # rest"
      unfolding pre_def a_def b_def rest_def by (rule split_at_two [OF len])
    have lp: "length pre = j" using len by (simp add: pre_def)
    have k: "n - i - 1 - j = Suc k" using True by (simp add: k_def)
    define xs' where "xs' = (if swap (xs ! j) (xs ! (j + 1)) then swap_adjacent j xs else xs)"
    have lx: "length xs' = n" using "1.prems" by (simp add: xs'_def)
    have step: "bubble_inner swap n i j xs = bubble_inner swap n i (j + 1) xs'"
      using True by (simp add: bubble_inner.simps [of swap n i j xs] xs'_def)
    have ih: "bubble_inner swap n i (j + 1) xs' =
              take (j + 1) xs' @ bubble_pass swap k (drop (j + 1) xs')"
      using "1.IH" [OF True lx [unfolded xs'_def]] by (simp add: xs'_def k_def)
    have x': "xs' = (if swap a b then pre @ b # a # rest else pre @ a # b # rest)"
      using xs swap_adjacent_append [OF lp, of a b rest] by (simp add: xs'_def a_def b_def)
    have rhs: "take j xs @ bubble_pass swap (n - i - 1 - j) (drop j xs) =
               pre @ bubble_pass swap (Suc k) (a # b # rest)"
      using k drop_two [OF len] by (simp add: pre_def a_def b_def rest_def)
    show ?thesis
      unfolding step ih rhs using lp by (simp add: x')
  qed
qed

lemma bubble_pass_append:
  "k < length xs \<Longrightarrow> bubble_pass swap k (xs @ zs) = bubble_pass swap k xs @ zs"
  by (induction swap k xs rule: bubble_pass.induct) auto

lemma bubble_pass_max:
  assumes "total_swap swap"
  shows "length xs = Suc k \<Longrightarrow>
         \<exists>ys m. bubble_pass swap k xs = ys @ [m] \<and> mset (ys @ [m]) = mset xs \<and>
                (\<forall>y \<in> set ys. \<not> swap y m)"
proof (induction k arbitrary: xs)
  case 0
  then obtain x where "xs = [x]" by (cases xs) auto
  then show ?case by simp
next
  case (Suc k)
  then obtain x y rest where xs: "xs = x # y # rest" and lr: "length rest = k"
    by (cases xs; cases "tl xs") auto
  have refl: "\<not> swap u u" for u using assms unfolding total_swap_def by blast
  have tot: "swap u v \<Longrightarrow> \<not> swap v u" for u v using assms unfolding total_swap_def by blast
  have trans: "\<not> swap u v \<Longrightarrow> \<not> swap v w \<Longrightarrow> \<not> swap u w" for u v w
    using assms unfolding total_swap_def by blast
  show ?case
  proof (cases "swap x y")
    case True
    have "length (x # rest) = Suc k" using lr by simp
    from Suc.IH [OF this] obtain ys m where
      p: "bubble_pass swap k (x # rest) = ys @ [m]" and
      m: "mset (ys @ [m]) = mset (x # rest)" and
      mx: "\<forall>u \<in> set ys. \<not> swap u m" by blast
    have "x \<in> set (ys @ [m])" using mset_eq_setD [OF m] by simp
    then have "\<not> swap x m" using mx refl by auto
    moreover have "\<not> swap y x" using True tot by blast
    ultimately have "\<not> swap y m" using trans by blast
    moreover have "bubble_pass swap (Suc k) xs = (y # ys) @ [m]"
      using True p xs by simp
    moreover have "mset ((y # ys) @ [m]) = mset xs"
      using m xs by simp
    ultimately show ?thesis
      using mx by (intro exI [of _ "y # ys"] exI [of _ m]) simp
  next
    case False
    have "length (y # rest) = Suc k" using lr by simp
    from Suc.IH [OF this] obtain ys m where
      p: "bubble_pass swap k (y # rest) = ys @ [m]" and
      m: "mset (ys @ [m]) = mset (y # rest)" and
      mx: "\<forall>u \<in> set ys. \<not> swap u m" by blast
    have "y \<in> set (ys @ [m])" using mset_eq_setD [OF m] by simp
    then have "\<not> swap y m" using mx refl by auto
    then have "\<not> swap x m" using False trans by blast
    moreover have "bubble_pass swap (Suc k) xs = (x # ys) @ [m]"
      using False p xs by simp
    moreover have "mset ((x # ys) @ [m]) = mset xs"
      using m xs by simp
    ultimately show ?thesis
      using mx by (intro exI [of _ "x # ys"] exI [of _ m]) simp
  qed
qed

lemma bubble_outer_sorted:
  "total_swap swap \<Longrightarrow> length xs = n \<Longrightarrow> xs = pre @ suf \<Longrightarrow> length suf = i \<Longrightarrow>
         sorted_wrt (\<lambda>a b. \<not> swap a b) suf \<Longrightarrow>
         (\<forall>x \<in> set pre. \<forall>y \<in> set suf. \<not> swap x y) \<Longrightarrow>
         sorted_wrt (\<lambda>a b. \<not> swap a b) (bubble_outer swap n i xs) \<and>
         mset (bubble_outer swap n i xs) = mset xs"
proof (induction swap n i xs arbitrary: pre suf rule: bubble_outer.induct)
  case (1 swap n i xs)
  show ?case
  proof (cases "i + 1 < n")
    case False
    then have "length pre \<le> 1" using "1.prems" by auto
    then have "sorted_wrt (\<lambda>a b. \<not> swap a b) pre"
      by (cases pre) auto
    then have "sorted_wrt (\<lambda>a b. \<not> swap a b) xs"
      using "1.prems" by (simp add: sorted_wrt_append)
    with False show ?thesis
      by (simp add: bubble_outer.simps [of swap n i xs])
  next
    case True
    have lp: "length pre = Suc (n - i - 1)" using True "1.prems" by auto
    from bubble_pass_max [OF "1.prems"(1) lp] obtain ys m where
      p: "bubble_pass swap (n - i - 1) pre = ys @ [m]" and
      m: "mset (ys @ [m]) = mset pre" and
      mx: "\<forall>u \<in> set ys. \<not> swap u m" by blast
    have sets: "set pre = set ys \<union> {m}"
      using mset_eq_setD [OF m] by simp
    have inner: "bubble_inner swap n i 0 xs = ys @ m # suf"
      using "1.prems" lp p by (simp add: bubble_inner_pass bubble_pass_append)
    have "sorted_wrt (\<lambda>a b. \<not> swap a b) (bubble_outer swap n (i + 1) (ys @ m # suf)) \<and>
          mset (bubble_outer swap n (i + 1) (ys @ m # suf)) = mset (ys @ m # suf)"
    proof (rule "1.IH" [OF True, unfolded inner, of ys "m # suf"])
      show "total_swap swap" by (rule "1.prems"(1))
      show "length (ys @ m # suf) = n"
        using "1.prems" mset_eq_length [OF m] by simp
      show "ys @ m # suf = ys @ m # suf" by simp
      show "length (m # suf) = i + 1" using "1.prems" by simp
      show "sorted_wrt (\<lambda>a b. \<not> swap a b) (m # suf)" using "1.prems" sets by auto
      show "\<forall>x\<in>set ys. \<forall>y\<in>set (m # suf). \<not> swap x y" using "1.prems" sets mx by auto
    qed
    moreover have "mset (ys @ m # suf) = mset xs" using m "1.prems" by simp
    ultimately show ?thesis
      using True by (simp add: bubble_outer.simps [of swap n i xs] inner)
  qed
qed

lemma bubble_sort_sorted:
  "total_swap swap \<Longrightarrow>
   sorted_wrt (\<lambda>a b. \<not> swap a b) (bubble_sort swap xs) \<and> mset (bubble_sort swap xs) = mset xs"
  using bubble_outer_sorted [of swap xs "length xs" xs "[]" 0]
  by (simp add: bubble_sort_def)

section \<open>Properties of the Walker\<close>

lemma total_swap_depth_swap: "total_swap depth_swap"
  unfolding total_swap_def depth_swap_def Let_def by auto

lemma Walk_append_all:
  "(\<And>q i e acc. fn q i e acc = acc @ fn q i e []) \<Longrightarrow>
   \<forall>acc. Walk fn p node acc = acc @ Walk fn p node []"
  "(\<And>q i e acc. fn q i e acc = acc @ fn q i e []) \<Longrightarrow>
   \<forall>acc. Walk_entries fn p es acc = acc @ Walk_entries fn p es []"
proof (induction fn p node "s::'a list" and fn p es "s::'a list" rule: Walk_Walk_entries.induct)
  case (1 fn p s)
  show ?case unfolding Walk.simps using 1 by blast
next
  case (2 fn p info s)
  show ?case unfolding Walk.simps using 2 by blast
next
  case (3 fn p info s)
  show ?case unfolding Walk.simps using 3 by blast
next
  case (4 fn p info entries s)
  let ?i = "Some (info\<lparr>st_IsDir := True\<rparr>)"
  have e: "Walk_entries fn p entries acc = acc @ Walk_entries fn p entries []" for acc
    using 4 by blast
  have f: "fn p ?i None acc = acc @ fn p ?i None []" for acc
    using 4(2) by blast
  show ?case
  proof
    fix acc
    have "Walk fn p (Dir info entries) acc = Walk_entries fn p entries (fn p ?i None acc)"
      by simp
    also have "\<dots> = (acc @ fn p ?i None []) @ Walk_entries fn p entries []"
      using e [of "fn p ?i None acc"] f [of acc] by simp
    also have "\<dots> = acc @ Walk_entries fn p entries (fn p ?i None [])"
      using e [of "fn p ?i None []"] by simp
    finally show "Walk fn p (Dir info entries) acc = acc @ Walk fn p (Dir info entries) []"
      by simp
  qed
next
  case (5 fn p s)
  show ?case by simp
next
  case (6 fn p name child rest s)
  have w: "Walk fn (Join p name) child acc = acc @ Walk fn (Join p name) child []" for acc
    using 6 by blast
  have e: "Walk_entries fn p rest acc = acc @ Walk_entries fn p rest []" for acc
    using 6 by blast
  show ?case
  proof
    fix acc
    have "Walk_entries fn p ((name, child) # rest) acc =
          (acc @ Walk fn (Join p name) child []) @ Walk_entries fn p rest []"
      using e [of "Walk fn (Join p name) child acc"] w [of acc] by simp
    also have "\<dots> = acc @ Walk_entries fn p rest (Walk fn (Join p name) child [])"
      using e [of "Walk fn (Join p name) child []"] by simp
    finally show "Walk_entries fn p ((name, child) # rest) acc =
                  acc @ Walk_entries fn p ((name, child) # rest) []"
      by simp
  qed
qed

lemma Scan_visit_append:
  "Scan_visit glob fo q i e acc = acc @ Scan_visit glob fo q i e []"
  by (simp add: Scan_visit_def split: option.splits)

lemma Walk_fold_gen:
  "(\<And>q i e acc. fn2 q i e acc = acc @ fn2 q i e []) \<Longrightarrow>
   (\<And>q i e s. fn1 q i e s = fold cb (fn2 q i e []) s) \<Longrightarrow>
   Walk fn1 p node s = fold cb (Walk fn2 p node []) s"
  "(\<And>q i e acc. fn2 q i e acc = acc @ fn2 q i e []) \<Longrightarrow>
   (\<And>q i e s. fn1 q i e s = fold cb (fn2 q i e []) s) \<Longrightarrow>
   Walk_entries fn1 p es s = fold cb (Walk_entries fn2 p es []) s"
proof (induction fn1 p node s and fn1 p es s rule: Walk_Walk_entries.induct)
  case (1 fn p s)
  show ?case unfolding Walk.simps using 1(2) by blast
next
  case (2 fn p info s)
  show ?case unfolding Walk.simps using 2(2) by blast
next
  case (3 fn p info s)
  show ?case unfolding Walk.simps using 3(2) by blast
next
  case (4 fn p info entries s)
  let ?i = "Some (info\<lparr>st_IsDir := True\<rparr>)"
  have "Walk_entries fn p entries (fn p ?i None s) =
        fold cb (Walk_entries fn2 p entries []) (fn p ?i None s)"
    using 4 by blast
  moreover have "fn p ?i None s = fold cb (fn2 p ?i None []) s"
    using 4(3) by blast
  moreover have "Walk_entries fn2 p entries (fn2 p ?i None []) =
                 fn2 p ?i None [] @ Walk_entries fn2 p entries []"
    using Walk_append_all(2) [of fn2] 4(2) by blast
  ultimately show ?case by simp
next
  case (5 fn p s)
  show ?case by simp
next
  case (6 fn p name child rest s)
  let ?w = "Walk fn2 (Join p name) child []"
  have a: "Walk fn (Join p name) child s = fold cb ?w s"
    using 6 by blast
  have b: "Walk_entries fn p rest (Walk fn (Join p name) child s) =
           fold cb (Walk_entries fn2 p rest []) (Walk fn (Join p name) child s)"
    using 6 by blast
  have c: "Walk_entries fn2 p rest ?w = ?w @ Walk_entries fn2 p rest []"
    using Walk_append_all(2) [of fn2] 6(3) by blast
  show ?case using a b c by simp
qed

lemma ScanWithCallback_visit_fold:
  "ScanWithCallback_visit glob fo cb q i e s = fold cb (Scan_visit glob fo q i e []) s"
  by (simp add: ScanWithCallback_visit_def Scan_visit_def split: option.splits)

lemma Walk_callback_fold:
  "Walk (ScanWithCallback_visit glob fo cb) p node s =
     fold cb (Walk (Scan_visit glob fo) p node []) s"
  by (rule Walk_fold_gen(1) [OF Scan_visit_append ScanWithCallback_visit_fold])

lemma bubble_sort_short: "length xs \<le> 1 \<Longrightarrow> bubble_sort swap xs = xs"
  by (simp add: bubble_sort_def bubble_outer.simps [of swap "length xs" 0 xs])

lemma ScanWithCallback_fold:
  "ScanWithCallback glob fs p recursive filterOpts cb t =
     (case Scan_accumulated glob fs p recursive filterOpts of
        Inl err \<Rightarrow> (Some err, t)
      | Inr files \<Rightarrow> (None, fold cb files t))"
  by (auto simp: ScanWithCallback_def Scan_accumulated_def Walk_callback_fold
           split: sum.splits)

lemma Scan_sorts_accumulated:
  "Scan glob fs p recursive filterOpts =
     (case Scan_accumulated glob fs p recursive filterOpts of
        Inl err \<Rightarrow> Inl err
      | Inr files \<Rightarrow> Inr (sortByDepth files))"
  by (auto simp: Scan_def Scan_accumulated_def sortByDepth_def bubble_sort_short
           split: sum.splits)

lemma fold_snoc: "fold (\<lambda>f acc. acc @ [f]) xs ys = ys @ xs"
  by (induction xs arbitrary: ys) simp_all

lemma sortByDepth_sorted:
  "sorted_wrt (\<lambda>f g. \<not> depth_swap f g) (sortByDepth xs)" "mset (sortByDepth xs) = mset xs"
  using bubble_sort_sorted [OF total_swap_depth_swap] by (simp_all add: sortByDepth_def)


lemma example_scan_a:
  "Scan (\<lambda>pat name. False) example_fs ''/a'' True None =
   Inr [\<lparr>Path = ''/a/b/c.txt'', Size = 3, Mode = 420, ModTime = 5, IsDir = False\<rparr>,
        \<lparr>Path = ''/a/b'', Size = 3, Mode = 420, ModTime = 5, IsDir = True\<rparr>,
        \<lparr>Path = ''/a'', Size = 3, Mode = 420, ModTime = 5, IsDir = True\<rparr>]"
  by (simp add: Scan_def example_fs_def example_info_def Scan_visit_def mkFileInfo_def
        Unix_def Join_def Separator_def sortByDepth_def bubble_sort_def bubble_outer.simps
        bubble_inner.simps swap_adjacent_def depth_swap_def countSeparators_def Match_def)

lemma example_scan_t:
  "Scan (\<lambda>pat name. False) example_fs ''/t'' True None =
   Inr [\<lparr>Path = ''/t/x'', Size = 3, Mode = 420, ModTime = 5, IsDir = False\<rparr>,
        \<lparr>Path = ''/t/y'', Size = 3, Mode = 420, ModTime = 5, IsDir = False\<rparr>,
        \<lparr>Path = ''/t'', Size = 3, Mode = 420, ModTime = 5, IsDir = True\<rparr>]"
  by (simp add: Scan_def example_fs_def example_info_def Scan_visit_def mkFileInfo_def
        Unix_def Join_def Separator_def sortByDepth_def bubble_sort_def bubble_outer.simps
        bubble_inner.simps swap_adjacent_def depth_swap_def countSeparators_def Match_def)

text \<open>
  Claim C1, as the code has it. Whatever \<^verbatim>\<open>Scan\<close> returns is ordered by the number of
  separators in the path, largest first, and paths with the same number of separators
  are in ascending lexicographic order (the swap condition of \<^verbatim>\<open>sortByDepth\<close> exchanges
  two neighbours of equal depth when the first path is the greater one).
\<close>

theorem Scan_deepest_first:
  "Scan glob fs p recursive filterOpts = Inr files \<Longrightarrow>
   sorted_wrt (\<lambda>f g. countSeparators (Path f) > countSeparators (Path g) \<or>
                      (countSeparators (Path f) = countSeparators (Path g) \<and> Path f \<le> Path g))
     files"
proof -
  assume r: "Scan glob fs p recursive filterOpts = Inr files"
  have eq: "(\<lambda>f g. \<not> depth_swap f g) =
            (\<lambda>f g. countSeparators (Path f) > countSeparators (Path g) \<or>
                      (countSeparators (Path f) = countSeparators (Path g) \<and> Path f \<le> Path g))"
    by (auto simp: depth_swap_def Let_def fun_eq_iff)
  obtain xs where "files = sortByDepth xs"
    using r unfolding Scan_sorts_accumulated by (auto split: sum.splits)
  then show ?thesis using sortByDepth_sorted(1) [of xs] by (simp add: eq)
qed

text \<open>The tree \<^verbatim>\<open>a/b/c.txt\<close>: the file comes first, then \<^verbatim>\<open>a/b\<close>, then \<^verbatim>\<open>a\<close>.\<close>

theorem Scan_deepest_first_witness:
  "Scan (\<lambda>pat name. False) example_fs ''/a'' True None =
   Inr [\<lparr>Path = ''/a/b/c.txt'', Size = 3, Mode = 420, ModTime = 5, IsDir = False\<rparr>,
        \<lparr>Path = ''/a/b'', Size = 3, Mode = 420, ModTime = 5, IsDir = True\<rparr>,
        \<lparr>Path = ''/a'', Size = 3, Mode = 420, ModTime = 5, IsDir = True\<rparr>] \<and>
   sorted_wrt (\<lambda>f g. countSeparators (Path f) > countSeparators (Path g) \<or>
                      (countSeparators (Path f) = countSeparators (Path g) \<and> Path f \<le> Path g))
     [\<lparr>Path = ''/a/b/c.txt'', Size = 3, Mode = 420, ModTime = 5, IsDir = False\<rparr>,
      \<lparr>Path = ''/a/b'', Size = 3, Mode = 420, ModTime = 5, IsDir = True\<rparr>,
      \<lparr>Path = ''/a'', Size = 3, Mode = 420, ModTime = 5, IsDir = True\<rparr>]"
  using Scan_deepest_first [OF example_scan_a] example_scan_a by simp

text \<open>
  The order the claim states, with ties in descending lexicographic order, does not hold:
  the scan of \<^verbatim>\<open>/t\<close> returns \<^verbatim>\<open>/t/x\<close> before \<^verbatim>\<open>/t/y\<close>.
\<close>

theorem Scan_deepest_first_counterexample:
  "Scan (\<lambda>pat name. False) example_fs ''/t'' True None =
   Inr [\<lparr>Path = ''/t/x'', Size = 3, Mode = 420, ModTime = 5, IsDir = False\<rparr>,
        \<lparr>Path = ''/t/y'', Size = 3, Mode = 420, ModTime = 5, IsDir = False\<rparr>,
        \<lparr>Path = ''/t'', Size = 3, Mode = 420, ModTime = 5, IsDir = True\<rparr>] \<and>
   \<not> sorted_wrt (\<lambda>f g. countSeparators (Path f) > countSeparators (Path g) \<or>
                      (countSeparators (Path f) = countSeparators (Path g) \<and> Path f \<ge> Path g))
     [\<lparr>Path = ''/t/x'', Size = 3, Mode = 420, ModTime = 5, IsDir = False\<rparr>,
      \<lparr>Path = ''/t/y'', Size = 3, Mode = 420, ModTime = 5, IsDir = False\<rparr>,
      \<lparr>Path = ''/t'', Size = 3, Mode = 420, ModTime = 5, IsDir = True\<rparr>]"
  using example_scan_t by (simp add: countSeparators_def Separator_def)

text \<open>
  Claim C9. For every callback and starting state, \<^verbatim>\<open>ScanWithCallback\<close> returns the error
  \<^verbatim>\<open>Scan\<close> returns, or has called the callback on exactly the entries \<^verbatim>\<open>Scan\<close> has
  accumulated, in the same order; \<^verbatim>\<open>Scan\<close> returns the entries delivered to a callback that
  records them, after \<^verbatim>\<open>sortByDepth\<close>; so both select the same candidates.
\<close>

theorem Scan_refines_ScanWithCallback:
  "ScanWithCallback glob fs p recursive filterOpts callback s =
     (case Scan_accumulated glob fs p recursive filterOpts of
        Inl err \<Rightarrow> (Some err, s)
      | Inr files \<Rightarrow> (None, fold callback files s)) \<and>
   Scan glob fs p recursive filterOpts =
     (case ScanWithCallback glob fs p recursive filterOpts (\<lambda>f acc. acc @ [f]) [] of
        (Some err, delivered) \<Rightarrow> Inl err
      | (None, delivered) \<Rightarrow> Inr (sortByDepth delivered)) \<and>
   (\<forall>files. Scan glob fs p recursive filterOpts = Inr files \<longrightarrow>
      mset files =
        mset (snd (ScanWithCallback glob fs p recursive filterOpts (\<lambda>f acc. acc @ [f]) [])))"
proof (intro conjI)
  show "ScanWithCallback glob fs p recursive filterOpts callback s =
     (case Scan_accumulated glob fs p recursive filterOpts of
        Inl err \<Rightarrow> (Some err, s)
      | Inr files \<Rightarrow> (None, fold callback files s))"
    by (rule ScanWithCallback_fold)
  show "Scan glob fs p recursive filterOpts =
     (case ScanWithCallback glob fs p recursive filterOpts (\<lambda>f acc. acc @ [f]) [] of
        (Some err, delivered) \<Rightarrow> Inl err
      | (None, delivered) \<Rightarrow> Inr (sortByDepth delivered))"
    unfolding ScanWithCallback_fold Scan_sorts_accumulated
    by (cases "Scan_accumulated glob fs p recursive filterOpts") (simp_all add: fold_snoc)
  show "\<forall>files. Scan glob fs p recursive filterOpts = Inr files \<longrightarrow>
      mset files =
        mset (snd (ScanWithCallback glob fs p recursive filterOpts (\<lambda>f acc. acc @ [f]) []))"
    unfolding ScanWithCallback_fold Scan_sorts_accumulated
    by (cases "Scan_accumulated glob fs p recursive filterOpts")
       (auto simp: fold_snoc sortByDepth_sorted)
qed


theorem Scan_refines_ScanWithCallback_witness:
  "ScanWithCallback (\<lambda>pat name. False) example_fs ''/a'' True None (\<lambda>f acc. acc @ [f]) [] =
     (None,
      [\<lparr>Path = ''/a'', Size = 3, Mode = 420, ModTime = 5, IsDir = True\<rparr>,
       \<lparr>Path = ''/a/b'', Size = 3, Mode = 420, ModTime = 5, IsDir = True\<rparr>,
       \<lparr>Path = ''/a/b/c.txt'', Size = 3, Mode = 420, ModTime = 5, IsDir = False\<rparr>]) \<and>
   Scan (\<lambda>pat name. False) example_fs ''/a'' True None =
     Inr (sortByDepth
       [\<lparr>Path = ''/a'', Size = 3, Mode = 420, ModTime = 5, IsDir = True\<rparr>,
        \<lparr>Path = ''/a/b'', Size = 3, Mode = 420, ModTime = 5, IsDir = True\<rparr>,
        \<lparr>Path = ''/a/b/c.txt'', Size = 3, Mode = 420, ModTime = 5, IsDir = False\<rparr>])"
proof -
  have d: "ScanWithCallback (\<lambda>pat name. False) example_fs ''/a'' True None
             (\<lambda>f acc. acc @ [f]) [] =
     (None,
      [\<lparr>Path = ''/a'', Size = 3, Mode = 420, ModTime = 5, IsDir = True\<rparr>,
       \<lparr>Path = ''/a/b'', Size = 3, Mode = 420, ModTime = 5, IsDir = True\<rparr>,
       \<lparr>Path = ''/a/b/c.txt'', Size = 3, Mode = 420, ModTime = 5, IsDir = False\<rparr>])"
    by (simp add: ScanWithCallback_def ScanWithCallback_visit_def example_fs_def
          example_info_def mkFileInfo_def Unix_def Join_def Separator_def)
  show ?thesis
    using Scan_refines_ScanWithCallback
            [of "\<lambda>pat name. False" example_fs "''/a''" True None "\<lambda>f acc. acc @ [f]" "[]"]
    by (simp add: d)
qed

section \<open>Properties of the Deletion Engine\<close>

declare write_loop.simps [simp del] shred_passes.simps [simp del]

lemma chunks_nonpos: "n \<le> 0 \<Longrightarrow> chunks fl n = []"
proof -
  assume n: "n \<le> 0"
  have "n div 65536 \<le> 0 div 65536"
    by (rule zdiv_mono1) (use n in simp_all)
  then show ?thesis using n by (simp add: chunks_def)
qed

lemma chunks_small: "0 < n \<Longrightarrow> n < 65536 \<Longrightarrow> chunks fl n = [Write fl (nat n)]"
  by (simp add: chunks_def)

lemma chunks_step:
  "n \<ge> 65536 \<Longrightarrow> chunks fl n = Write fl 65536 # chunks fl (n - 65536)"
proof -
  assume n: "n \<ge> 65536"
  have d: "n div 65536 = (n - 65536) div 65536 + 1" by simp
  have "0 \<le> (n - 65536) div 65536" using n by (simp add: pos_imp_zdiv_nonneg_iff)
  then have "nat (n div 65536) = Suc (nat ((n - 65536) div 65536))"
    unfolding d by simp
  moreover have "n mod 65536 = (n - 65536) mod 65536" by simp
  moreover have "n = 65536 \<Longrightarrow> n mod 65536 = 0" by simp
  ultimately show ?thesis using n by (auto simp: chunks_def)
qed

lemma write_loop_ok:
  "(\<And>tr op. env tr op = None) \<Longrightarrow> write_loop env fl n tr = (None, tr @ chunks fl n)"
proof (induction env fl n tr rule: write_loop.induct)
  case (1 env fl remaining tr)
  have ok: "do_op env op t = (None, t @ [op])" for op t
    using "1.prems" by (simp add: do_op_def)
  show ?case
  proof (cases "remaining > 0")
    case False
    then show ?thesis
      by (simp add: write_loop.simps [of env fl remaining tr] chunks_nonpos)
  next
    case pos: True
    show ?thesis
    proof (cases "65536 > remaining")
      case True
      have "write_loop env fl 0 (tr @ [Write fl (nat remaining)]) =
            (None, tr @ [Write fl (nat remaining)])"
        by (simp add: write_loop.simps [of env fl 0])
      then show ?thesis
        using True pos
        by (simp add: write_loop.simps [of env fl remaining tr] ok chunks_small)
    next
      case False
      have "write_loop env fl (remaining - 65536) (tr @ [Write fl 65536]) =
            (None, (tr @ [Write fl 65536]) @ chunks fl (remaining - 65536))"
        by (rule "1.IH") (use pos False "1.prems" in \<open>simp_all add: do_op_def\<close>)
      then show ?thesis
        using False pos
        by (simp add: write_loop.simps [of env fl remaining tr] ok chunks_step)
    qed
  qed
qed

lemma shred_passes_ok:
  assumes "\<And>tr op. env tr op = None"
  shows "shred_passes env n 0 tr =
         (None, tr @ overwrite_pass Random n @ overwrite_pass Zeros n @ overwrite_pass Random n)"
proof -
  have ok: "do_op env op t = (None, t @ [op])" for op t
    using assms by (simp add: do_op_def)
  have w: "write_loop env fl n t = (None, t @ chunks fl n)" for fl t
    using write_loop_ok [of env] assms by blast
  have m: "Suc (Suc 0) mod 2 = 0" "Suc 0 mod 2 = Suc 0" by simp_all
  have p3: "shred_passes env n (Suc (Suc (Suc 0))) t = (None, t)" for t
    by (simp add: shred_passes.simps [of env n "Suc (Suc (Suc 0))"])
  have p2: "shred_passes env n (Suc (Suc 0)) t = (None, t @ overwrite_pass Random n)" for t
    by (simp add: shred_passes.simps [of env n "Suc (Suc 0)"] ok w overwrite_pass_def p3 m)
  have p1: "shred_passes env n (Suc 0) t =
            (None, t @ overwrite_pass Zeros n @ overwrite_pass Random n)" for t
    by (simp add: shred_passes.simps [of env n "Suc 0"] ok w overwrite_pass_def p2 m)
  show ?thesis
    by (simp add: shred_passes.simps [of env n 0] ok w overwrite_pass_def p1)
qed

lemma written_bytes_append [simp]:
  "written_bytes (xs @ ys) = written_bytes xs + written_bytes ys"
  by (induction xs rule: written_bytes.induct) simp_all

lemma written_bytes_replicate [simp]:
  "written_bytes (replicate k (Write fl m)) = k * m"
  by (induction k) simp_all

lemma written_bytes_chunks: "written_bytes (chunks fl n) = nat n"
proof (cases "n > 0")
  case False
  then show ?thesis by (simp add: chunks_nonpos)
next
  case True
  define q where "q = n div 65536"
  define r where "r = n mod 65536"
  have n: "n = q * 65536 + r" by (simp add: q_def r_def)
  have q: "0 \<le> q" using True by (simp add: q_def pos_imp_zdiv_nonneg_iff)
  have r: "0 \<le> r" by (simp add: r_def)
  have "nat n = nat (q * 65536) + nat r"
    unfolding n using q r by (simp add: nat_add_distrib)
  also have "nat (q * 65536) = nat q * 65536"
    using q by (simp add: nat_mult_distrib)
  finally have "nat n = nat q * 65536 + nat r" .
  then show ?thesis
    using True r by (auto simp: chunks_def q_def [symmetric] r_def [symmetric])
qed

lemma chunks_bounded:
  "op \<in> set (chunks fl n) \<Longrightarrow> \<exists>k. op = Write fl k \<and> 0 < k \<and> k \<le> 65536"
  by (auto simp: chunks_def nat_less_iff split: if_splits)


lemma New_workers_positive: "0 < workers (New w s t)"
  by (simp add: New_def)

lemma held_append [simp]: "held (gs @ hs) = held gs @ held hs"
  by (induction gs rule: held.induct) simp_all









lemma write_loop_no_stage:
  "\<not> list_ex is_stage tr \<Longrightarrow> \<not> list_ex is_stage (snd (write_loop env fl n tr))"
proof (induction env fl n tr rule: write_loop.induct)
  case (1 env fl remaining tr)
  show ?case
  proof (cases "remaining > 0")
    case False
    with 1 show ?thesis by (simp add: write_loop.simps [of env fl remaining tr])
  next
    case True
    define toWrite where "toWrite = (if 65536 > remaining then remaining else 65536)"
    obtain err tr' where d: "do_op env (Write fl (nat toWrite)) tr = (err, tr')"
      by (cases "do_op env (Write fl (nat toWrite)) tr")
    have n: "\<not> list_ex is_stage tr'"
      using d "1.prems" by (auto simp: do_op_def)
    show ?thesis
    proof (cases err)
      case None
      have "\<not> list_ex is_stage (snd (write_loop env fl (remaining - toWrite) tr'))"
        by (rule "1.IH" [OF True toWrite_def _ _ n]) (use d None in simp_all)
      then show ?thesis
        using True d None
        by (simp add: write_loop.simps [of env fl remaining tr] toWrite_def Let_def)
    next
      case (Some e)
      then show ?thesis
        using True d n
        by (simp add: write_loop.simps [of env fl remaining tr] toWrite_def Let_def)
    qed
  qed
qed


lemma shred_passes_no_stage:
  "\<not> list_ex is_stage tr \<Longrightarrow> \<not> list_ex is_stage (snd (shred_passes env n pass tr))"
proof (induction env n pass tr rule: shred_passes.induct)
  case (1 env sz pass tr)
  show ?case
  proof (cases "pass < 3")
    case False
    with 1 show ?thesis by (simp add: shred_passes.simps [of env sz pass tr])
  next
    case True
    define fl where "fl = (if pass mod 2 = 0 then Random else Zeros)"
    obtain e1 tr1 where d1: "do_op env Seek0 tr = (e1, tr1)"
      by (cases "do_op env Seek0 tr")
    obtain e2 tr2 where d2: "write_loop env fl sz tr1 = (e2, tr2)"
      by (cases "write_loop env fl sz tr1")
    obtain e3 tr3 where d3: "do_op env Sync tr2 = (e3, tr3)"
      by (cases "do_op env Sync tr2")
    have n1: "\<not> list_ex is_stage tr1" using d1 "1.prems" by (auto simp: do_op_def)
    have n2: "\<not> list_ex is_stage tr2" using write_loop_no_stage [OF n1, of env fl sz] d2 by simp
    have n3: "\<not> list_ex is_stage tr3" using d3 n2 by (auto simp: do_op_def)
    show ?thesis
    proof (cases "e1 = None \<and> e2 = None \<and> e3 = None")
      case False
      then show ?thesis
        using True d1 d2 d3 n1 n2 n3
        by (auto simp: shred_passes.simps [of env sz pass tr] fl_def split: option.splits)
    next
      case ok: True
      have d1': "(None, tr1) = do_op env Seek0 tr" using d1 ok by simp
      have d2': "(None, tr2) =
                 write_loop env (if pass mod 2 = 0 then Random else Zeros) sz tr1"
        using d2 ok by (simp add: fl_def)
      have d3': "(None, tr3) = do_op env Sync tr2" using d3 ok by simp
      have "\<not> list_ex is_stage (snd (shred_passes env sz (pass + 1) tr3))"
        by (rule "1.IH" [OF True d1' refl d2' refl d3' refl n3])
      then show ?thesis
        using True d1 d2 d3 ok
        by (simp add: shred_passes.simps [of env sz pass tr] fl_def)
    qed
  qed
qed

lemma shredFile_no_stage:
  "\<not> list_ex is_stage tr \<Longrightarrow> \<not> list_ex is_stage (snd (shredFile env file tr))"
proof -
  assume n: "\<not> list_ex is_stage tr"
  obtain e1 tr1 where d1: "do_op env (OpenWrite (Path file)) tr = (e1, tr1)"
    by (cases "do_op env (OpenWrite (Path file)) tr")
  obtain e2 tr2 where d2: "shred_passes env (Size file) 0 tr1 = (e2, tr2)"
    by (cases "shred_passes env (Size file) 0 tr1")
  have n1: "\<not> list_ex is_stage tr1" using d1 n by (auto simp: do_op_def)
  have n2: "\<not> list_ex is_stage tr2" using shred_passes_no_stage [OF n1, of env "Size file" 0] d2 by simp
  show ?thesis
    using d1 d2 n1 n2 by (auto simp: shredFile_def do_op_def split: option.splits)
qed

text \<open>
  Claim C2. When no call fails, \<^verbatim>\<open>shredFile\<close> opens the file and makes exactly three
  passes, random bytes, zero bytes, random bytes, then closes and removes the file. Each
  pass seeks to offset 0, writes chunks of at most 64 KiB that add up to the recorded
  size (\<open>Size file\<close>, the field of the candidate: no call asks the file system for the
  size), and syncs. In shred mode the worker runs \<^verbatim>\<open>shredFile\<close>, and whatever fails,
  \<^verbatim>\<open>shredFile\<close> never calls \<^verbatim>\<open>MoveToTrash\<close>.
\<close>

theorem shredFile_three_passes:
  "((\<forall>tr op. env tr op = None) \<longrightarrow>
      shredFile env file tr =
        (None, tr @ [OpenWrite (Path file)] @
               overwrite_pass Random (Size file) @
               overwrite_pass Zeros (Size file) @
               overwrite_pass Random (Size file) @
               [Close, Remove (Path file)])) \<and>
   overwrite_pass fl (Size file) = [Seek0] @ chunks fl (Size file) @ [Sync] \<and>
   written_bytes (chunks fl (Size file)) = nat (Size file) \<and>
   (\<forall>op \<in> set (chunks fl (Size file)). \<exists>k. op = Write fl k \<and> 0 < k \<and> k \<le> 65536) \<and>
   (shred d \<longrightarrow> worker_body d env file tr = shredFile env file tr) \<and>
   (\<not> list_ex is_stage tr \<longrightarrow> \<not> list_ex is_stage (snd (shredFile env file tr)))"
proof (intro conjI impI ballI)
  assume ok: "\<forall>tr op. env tr op = None"
  then have p: "shred_passes env n 0 t =
      (None, t @ overwrite_pass Random n @ overwrite_pass Zeros n @ overwrite_pass Random n)" for n t
    using shred_passes_ok [of env n t] by blast
  show "shredFile env file tr =
        (None, tr @ [OpenWrite (Path file)] @
               overwrite_pass Random (Size file) @
               overwrite_pass Zeros (Size file) @
               overwrite_pass Random (Size file) @
               [Close, Remove (Path file)])"
    using ok by (simp add: shredFile_def do_op_def p)
next
  show "overwrite_pass fl (Size file) = [Seek0] @ chunks fl (Size file) @ [Sync]"
    by (simp add: overwrite_pass_def)
next
  show "written_bytes (chunks fl (Size file)) = nat (Size file)"
    by (rule written_bytes_chunks)
next
  fix op assume "op \<in> set (chunks fl (Size file))"
  then show "\<exists>k. op = Write fl k \<and> 0 < k \<and> k \<le> 65536"
    by (rule chunks_bounded)
next
  assume "shred d"
  then show "worker_body d env file tr = shredFile env file tr"
    by (simp add: worker_body_def)
next
  assume "\<not> list_ex is_stage tr"
  then show "\<not> list_ex is_stage (snd (shredFile env file tr))"
    by (rule shredFile_no_stage)
qed

theorem shredFile_three_passes_witness:
  "shredFile (\<lambda>tr op. None)
     \<lparr>Path = ''/t/x'', Size = 70000, Mode = 420, ModTime = 5, IsDir = False\<rparr> [] =
     (None,
      [OpenWrite ''/t/x'',
       Seek0, Write Random 65536, Write Random 4464, Sync,
       Seek0, Write Zeros 65536, Write Zeros 4464, Sync,
       Seek0, Write Random 65536, Write Random 4464, Sync,
       Close, Remove ''/t/x'']) \<and>
   worker_body (New 4 True (Some \<lparr>trashDir = [''h'', ''files''], metaDir = [''h'', ''meta'']\<rparr>))
     (\<lambda>tr op. None)
     \<lparr>Path = ''/t/x'', Size = 70000, Mode = 420, ModTime = 5, IsDir = False\<rparr> [] =
   shredFile (\<lambda>tr op. None)
     \<lparr>Path = ''/t/x'', Size = 70000, Mode = 420, ModTime = 5, IsDir = False\<rparr> [] \<and>
   \<not> list_ex is_stage
       (snd (shredFile (\<lambda>tr op. None)
          \<lparr>Path = ''/t/x'', Size = 70000, Mode = 420, ModTime = 5, IsDir = False\<rparr> []))"
  using shredFile_three_passes
          [of "\<lambda>tr op. None"
              "\<lparr>Path = ''/t/x'', Size = 70000, Mode = 420, ModTime = 5, IsDir = False\<rparr>"
              "[]" Random
              "New 4 True (Some \<lparr>trashDir = [''h'', ''files''], metaDir = [''h'', ''meta'']\<rparr>)"]
  by (simp add: overwrite_pass_def chunks_def New_def)



section \<open>Properties of the Trash Store\<close>

lemma map_of_filter_key:
  "map_of (filter (\<lambda>(q, n). P q) xs) k = (if P k then map_of xs k else None)"
  by (induction xs) auto

lemma map_of_None_iff: "map_of xs k = None \<longleftrightarrow> (\<forall>(q, n) \<in> set xs. q \<noteq> k)"
  by (induction xs) auto

lemma RemoveAll_fields:
  "RemoveAll p fs = (e, fs') \<Longrightarrow>
   readonly fs' = readonly fs \<and> disk_full fs' = disk_full fs \<and>
   cross_device fs' = cross_device fs \<and>
   objects fs' = filter (\<lambda>(q, n). \<not> prefix p q \<or> has_stuck fs q) (objects fs)"
  by (auto simp: RemoveAll_def Let_def)

lemma RemoveAll_None:
  assumes "RemoveAll p fs = (None, fs')" and "(q, n) \<in> set (objects fs')"
  shows "\<not> prefix p q"
proof -
  define objs where "objs = filter (\<lambda>(q, n). \<not> prefix p q \<or> has_stuck fs q) (objects fs)"
  have "\<not> list_ex (\<lambda>(q, n). prefix p q) objs" and "objects fs' = objs"
    using assms(1) unfolding RemoveAll_def Let_def objs_def [symmetric]
    by (auto split: if_splits)
  then show ?thesis using assms(2) unfolding list_ex_iff by auto
qed

lemma RemoveAll_lookup_other:
  "RemoveAll p fs = (e, fs') \<Longrightarrow> \<not> prefix p q \<Longrightarrow> lookup fs' q = lookup fs q"
  by (auto simp: RemoveAll_def Let_def lookup_def map_of_filter_key)

lemma RemoveAll_writable:
  assumes "\<forall>(u, n) \<in> set (objects fs). prefix p u \<longrightarrow> entry_writable fs u"
  shows "RemoveAll p fs = (None, fs\<lparr>objects := filter (\<lambda>(q, n). \<not> prefix p q) (objects fs)\<rparr>)"
proof -
  have s: "prefix p q \<Longrightarrow> \<not> has_stuck fs q" for q
    using assms by (auto simp: has_stuck_def list_ex_iff dest: prefix_order.trans)
  have "filter (\<lambda>(q, n). \<not> prefix p q \<or> has_stuck fs q) (objects fs) =
        filter (\<lambda>(q, n). \<not> prefix p q) (objects fs)"
    by (rule filter_cong) (use s in auto)
  then show ?thesis
    by (auto simp: RemoveAll_def Let_def list_ex_iff)
qed

lemma Mkdir_fields:
  "Mkdir p fs = (e, fs') \<Longrightarrow>
   readonly fs' = readonly fs \<and> disk_full fs' = disk_full fs \<and>
   cross_device fs' = cross_device fs"
  by (auto simp: Mkdir_def split: if_splits)

lemma Mkdir_None:
  "Mkdir p fs = (None, fs') \<Longrightarrow>
   lookup fs p = None \<and> lookup fs (butlast p) = Some DirObj \<and> entry_writable fs p \<and>
   \<not> disk_full fs \<and> objects fs' = (p, DirObj) # objects fs"
  by (auto simp: Mkdir_def split: if_splits)

lemma MkdirAll_props:
  "MkdirAll p fs = (e, fs') \<Longrightarrow>
   readonly fs' = readonly fs \<and> disk_full fs' = disk_full fs \<and>
   cross_device fs' = cross_device fs \<and>
   (\<forall>q. lookup fs q \<noteq> None \<longrightarrow> lookup fs' q = lookup fs q) \<and>
   (\<forall>q n. (q, n) \<in> set (objects fs') \<longrightarrow> (q, n) \<in> set (objects fs) \<or> prefix q p) \<and>
   (e = None \<longrightarrow> lookup fs' p = Some DirObj) \<and>
   (e = None \<longrightarrow> lookup fs p = None \<longrightarrow>
      entry_writable fs p \<and> \<not> disk_full fs \<and> lookup fs' (butlast p) = Some DirObj)"
proof (induction p fs arbitrary: e fs' rule: MkdirAll.induct)
  case (1 p fs)
  show ?case
  proof (cases "lookup fs p")
    case (Some n)
    with "1.prems" show ?thesis
      by (cases n) (auto simp: MkdirAll.simps [of p fs])
  next
    case None
    obtain e1 fs1 where r: "MkdirAll (butlast p) fs = (e1, fs1)"
      by (cases "MkdirAll (butlast p) fs")
    note ih = "1.IH" [OF None r]
    have pb: "prefix q (butlast p) \<Longrightarrow> prefix q p" for q
      by (meson prefix_order.trans prefixeq_butlast)
    show ?thesis
    proof (cases e1)
      case (Some err)
      with "1.prems" None r have "e = Some err" "fs' = fs1"
        by (auto simp: MkdirAll.simps [of p fs])
      with ih show ?thesis
        using pb by blast
    next
      case ok: None
      with "1.prems" None r have m: "Mkdir p fs1 = (e, fs')"
        by (auto simp: MkdirAll.simps [of p fs])
      have f: "readonly fs' = readonly fs1" "disk_full fs' = disk_full fs1"
        "cross_device fs' = cross_device fs1"
        using Mkdir_fields [OF m] by auto
      show ?thesis
      proof (cases e)
        case (Some err)
        with m have "fs' = fs1" by (auto simp: Mkdir_def split: if_splits)
        with ih Some show ?thesis
          using pb by blast
      next
        case None2: None
        note mk = Mkdir_None [OF m [unfolded None2]]
        have p: "p \<noteq> []" using None by (auto simp: lookup_def split: if_splits)
        have l: "lookup fs' q = (if q = p then Some DirObj else lookup fs1 q)" for q
          using mk p by (auto simp: lookup_def)
        have "\<forall>q. lookup fs q \<noteq> None \<longrightarrow> lookup fs' q = lookup fs q"
          using ih None by (auto simp: l)
        moreover have "\<forall>q n. (q, n) \<in> set (objects fs') \<longrightarrow>
                          (q, n) \<in> set (objects fs) \<or> prefix q p"
        proof (intro allI impI)
          fix q n assume "(q, n) \<in> set (objects fs')"
          then consider "q = p" | "(q, n) \<in> set (objects fs1)" using mk by auto
          then show "(q, n) \<in> set (objects fs) \<or> prefix q p"
          proof cases
            case 1 then show ?thesis by simp
          next
            case 2 with ih pb show ?thesis by blast
          qed
        qed
        moreover have "lookup fs' (butlast p) = Some DirObj"
          using mk p by (auto simp: l)
        moreover have "entry_writable fs p"
          using mk ih by (simp add: entry_writable_def)
        ultimately show ?thesis
          using ih f mk None2 by (auto simp: l)
      qed
    qed
  qed
qed

lemma ReadDir_empty:
  assumes "lookup fs d = Some DirObj"
    and "\<forall>(q, n) \<in> set (objects fs). \<not> strict_prefix d q"
  shows "ReadDir fs d = Inr []"
proof -
  have "q \<noteq> [] \<Longrightarrow> butlast q = d \<Longrightarrow> strict_prefix d q" for q
    by (metis append_butlast_last_id not_Cons_self2 prefixI self_append_conv strict_prefix_def)
  then have "filter (\<lambda>(q, n). q \<noteq> [] \<and> butlast q = d) (objects fs) = []"
    using assms(2) by (auto simp: filter_empty_conv)
  then show ?thesis using assms(1) by (simp add: ReadDir_def)
qed

lemma purged_ReadDir:
  "purged m fs \<Longrightarrow> ReadDir fs (trashDir m) = Inr [] \<and> ReadDir fs (metaDir m) = Inr []"
  unfolding purged_def by (auto intro!: ReadDir_empty)

lemma lookup_None_keys:
  "p \<noteq> [] \<Longrightarrow> \<forall>(q, n) \<in> set (objects fs). \<not> prefix p q \<Longrightarrow> lookup fs p = None"
  by (auto simp: lookup_def map_of_None_iff)

lemma Empty_purges:
  assumes e: "Empty m fs = (None, fs')"
    and tm: "\<not> prefix (trashDir m) (metaDir m)" and mt: "\<not> prefix (metaDir m) (trashDir m)"
  shows "purged m fs'"
proof -
  let ?t = "trashDir m" and ?m = "metaDir m"
  have t0: "?t \<noteq> []" and m0: "?m \<noteq> []" using tm mt by auto
  from e obtain fs1 fs2 fs3 where
    r1: "RemoveAll ?t fs = (None, fs1)" and r2: "RemoveAll ?m fs1 = (None, fs2)" and
    k3: "MkdirAll ?t fs2 = (None, fs3)" and k4: "MkdirAll ?m fs3 = (None, fs')"
    by (auto simp: Empty_def split: prod.splits option.splits)
  have n1: "\<forall>(q, n) \<in> set (objects fs1). \<not> prefix ?t q"
    using RemoveAll_None [OF r1] by auto
  have sub2: "set (objects fs2) \<subseteq> set (objects fs1)"
    using RemoveAll_fields [OF r2] by auto
  have n2: "\<forall>(q, n) \<in> set (objects fs2). \<not> prefix ?t q \<and> \<not> prefix ?m q"
    using RemoveAll_None [OF r2] n1 sub2 by auto
  have lt2: "lookup fs2 ?t = None"
    using lookup_None_keys [OF t0, of fs2] n2 by auto
  note p3 = MkdirAll_props [OF k3]
  have k3keys: "(q, n) \<in> set (objects fs3) \<Longrightarrow> (q, n) \<in> set (objects fs2) \<or> prefix q ?t" for q n
    using p3 by blast
  have n3: "\<forall>(q, n) \<in> set (objects fs3). \<not> prefix ?m q"
  proof (clarify)
    fix q n assume a: "(q, n) \<in> set (objects fs3)" and b: "prefix ?m q"
    from k3keys [OF a] show False
    proof
      assume "(q, n) \<in> set (objects fs2)" with n2 b show False by auto
    next
      assume "prefix q ?t" with b mt show False by (meson prefix_order.trans)
    qed
  qed
  have lm3: "lookup fs3 ?m = None"
    using lookup_None_keys [OF m0, of fs3] n3 by auto
  note p4 = MkdirAll_props [OF k4]
  have k4keys: "(q, n) \<in> set (objects fs') \<Longrightarrow> (q, n) \<in> set (objects fs3) \<or> prefix q ?m" for q n
    using p4 by blast
  have keys: "(q, n) \<in> set (objects fs') \<Longrightarrow>
              (q, n) \<in> set (objects fs2) \<or> prefix q ?t \<or> prefix q ?m" for q n
    using k4keys k3keys by blast
  have clean: "\<forall>(q, n) \<in> set (objects fs').
                 \<not> strict_prefix ?t q \<and> \<not> strict_prefix ?m q"
  proof (clarify)
    fix q n assume a: "(q, n) \<in> set (objects fs')"
    from keys [OF a] consider "(q, n) \<in> set (objects fs2)" | "prefix q ?t" | "prefix q ?m"
      by blast
    then show "\<not> strict_prefix ?t q \<and> \<not> strict_prefix ?m q"
    proof cases
      case 1 with n2 show ?thesis by (auto simp: strict_prefix_def)
    next
      case 2
      then show ?thesis using mt
        by (auto simp: strict_prefix_def dest: prefix_order.trans prefix_order.antisym)
    next
      case 3
      then show ?thesis using tm
        by (auto simp: strict_prefix_def dest: prefix_order.trans prefix_order.antisym)
    qed
  qed
  have lt3: "lookup fs3 ?t = Some DirObj" using p3 by simp
  have lt': "lookup fs' ?t = Some DirObj" using p4 lt3 by simp
  have lm': "lookup fs' ?m = Some DirObj" using p4 by simp
  have w3: "entry_writable fs2 ?t" "\<not> disk_full fs2" "lookup fs3 (butlast ?t) = Some DirObj"
    using p3 lt2 by auto
  have w4: "entry_writable fs3 ?m" "lookup fs' (butlast ?m) = Some DirObj"
    using p4 lm3 by auto
  have ro: "readonly fs' = readonly fs3" "readonly fs3 = readonly fs2"
    "disk_full fs' = disk_full fs3" "disk_full fs3 = disk_full fs2"
    using p3 p4 by auto
  have "entry_writable fs' ?t" using w3 ro by (simp add: entry_writable_def)
  moreover have "entry_writable fs' ?m" using w4 ro by (simp add: entry_writable_def)
  moreover have "\<not> disk_full fs'" using w3 ro by simp
  moreover have "lookup fs' (butlast ?t) = Some DirObj" using p4 w3 by simp
  ultimately show ?thesis
    unfolding purged_def using t0 m0 lt' lm' clean w4 by auto
qed

lemma MkdirAll_fresh:
  assumes "lookup fs p = None" and "lookup fs (butlast p) = Some DirObj"
    and "entry_writable fs p" and "\<not> disk_full fs"
  shows "MkdirAll p fs = (None, fs\<lparr>objects := (p, DirObj) # objects fs\<rparr>)"
proof -
  have "MkdirAll (butlast p) fs = (None, fs)"
    using assms(2) by (simp add: MkdirAll.simps [of "butlast p" fs])
  then show ?thesis
    using assms by (simp add: MkdirAll.simps [of p fs] Mkdir_def)
qed

lemma lookup_filter_prefix:
  "lookup (fs\<lparr>objects := filter (\<lambda>(q, n). \<not> prefix p q) (objects fs)\<rparr>) q =
     (if q \<noteq> [] \<and> prefix p q then None else lookup fs q)"
  by (auto simp: lookup_def map_of_filter_key)

lemma lookup_cons:
  "lookup (fs\<lparr>objects := (p, n) # objects fs\<rparr>) q =
     (if q \<noteq> [] \<and> q = p then Some n else lookup fs q)"
  by (auto simp: lookup_def)

lemma not_prefix_butlast: "p \<noteq> [] \<Longrightarrow> \<not> prefix p (butlast p)"
  by (metis length_butlast prefix_length_le diff_less length_greater_0_conv not_less zero_less_one)

lemma prefix_butlast_trans: "prefix q (butlast p) \<Longrightarrow> prefix q p"
  by (meson prefix_order.trans prefixeq_butlast)

lemma purged_Empty:
  assumes g: "purged m fs"
    and tm: "\<not> prefix (trashDir m) (metaDir m)" and mt: "\<not> prefix (metaDir m) (trashDir m)"
  shows "\<exists>fs'. Empty m fs = (None, fs')"
proof -
  let ?t = "trashDir m" and ?m = "metaDir m"
  have t0: "?t \<noteq> []" and m0: "?m \<noteq> []" using tm mt by auto
  have c: "\<forall>(q, n) \<in> set (objects fs). \<not> strict_prefix ?t q \<and> \<not> strict_prefix ?m q"
    using g by (simp add: purged_def)
  have only_t: "(u, n) \<in> set (objects fs) \<Longrightarrow> prefix ?t u \<Longrightarrow> u = ?t" for u n
    using c by (auto simp: strict_prefix_def)
  have only_m: "(u, n) \<in> set (objects fs) \<Longrightarrow> prefix ?m u \<Longrightarrow> u = ?m" for u n
    using c by (auto simp: strict_prefix_def)
  have wt: "entry_writable fs ?t" and wm: "entry_writable fs ?m" and df: "\<not> disk_full fs"
    and pt: "lookup fs (butlast ?t) = Some DirObj" and pm: "lookup fs (butlast ?m) = Some DirObj"
    using g by (auto simp: purged_def)
  define fsA where "fsA = fs\<lparr>objects := filter (\<lambda>(q, n). \<not> prefix ?t q) (objects fs)\<rparr>"
  define fsB where "fsB = fsA\<lparr>objects := filter (\<lambda>(q, n). \<not> prefix ?m q) (objects fsA)\<rparr>"
  define fsC where "fsC = fsB\<lparr>objects := (?t, DirObj) # objects fsB\<rparr>"
  define fsD where "fsD = fsC\<lparr>objects := (?m, DirObj) # objects fsC\<rparr>"
  have r1: "RemoveAll ?t fs = (None, fsA)"
    unfolding fsA_def
  proof (rule RemoveAll_writable, clarify)
    fix u n assume "(u, n) \<in> set (objects fs)" "prefix ?t u"
    then show "entry_writable fs u" using only_t wt by metis
  qed
  have wA: "entry_writable fsA u = entry_writable fs u" for u
    by (simp add: fsA_def entry_writable_def)
  have subA: "set (objects fsA) \<subseteq> set (objects fs)"
    by (auto simp: fsA_def)
  have r2: "RemoveAll ?m fsA = (None, fsB)"
    unfolding fsB_def
  proof (rule RemoveAll_writable, clarify)
    fix u n assume "(u, n) \<in> set (objects fsA)" "prefix ?m u"
    then have "u = ?m" using only_m subA by blast
    then show "entry_writable fsA u" using wm wA by simp
  qed
  have lA: "lookup fsA q = (if q \<noteq> [] \<and> prefix ?t q then None else lookup fs q)" for q
    unfolding fsA_def by (rule lookup_filter_prefix)
  have lB0: "lookup fsB q = (if q \<noteq> [] \<and> prefix ?m q then None else lookup fsA q)" for q
    unfolding fsB_def by (rule lookup_filter_prefix)
  have lB: "lookup fsB q = (if q \<noteq> [] \<and> (prefix ?t q \<or> prefix ?m q) then None else lookup fs q)" for q
    by (simp add: lB0 lA)
  have wB: "entry_writable fsB u = entry_writable fs u" "disk_full fsB = disk_full fs" for u
    by (simp_all add: fsB_def fsA_def entry_writable_def)
  have bt: "\<not> prefix ?t (butlast ?t)" "\<not> prefix ?m (butlast ?t)"
    "\<not> prefix ?m (butlast ?m)" "\<not> prefix ?t (butlast ?m)"
    using not_prefix_butlast [OF t0] not_prefix_butlast [OF m0] tm mt
      prefix_butlast_trans [of ?m ?t] prefix_butlast_trans [of ?t ?m] by blast+
  have k3: "MkdirAll ?t fsB = (None, fsC)"
    unfolding fsC_def
  proof (rule MkdirAll_fresh)
    show "lookup fsB ?t = None" using t0 by (simp add: lB)
    show "lookup fsB (butlast ?t) = Some DirObj" using bt pt by (simp add: lB)
    show "entry_writable fsB ?t" using wt by (simp add: wB)
    show "\<not> disk_full fsB" using df by (simp add: wB)
  qed
  have lC: "lookup fsC q = (if q \<noteq> [] \<and> q = ?t then Some DirObj else lookup fsB q)" for q
    unfolding fsC_def by (rule lookup_cons)
  have wC: "entry_writable fsC u = entry_writable fs u" "disk_full fsC = disk_full fs" for u
    using wB by (simp_all add: fsC_def entry_writable_def)
  have mt_ne: "?m \<noteq> ?t" using tm by auto
  have bm_ne: "butlast ?m \<noteq> ?t" using tm prefixeq_butlast [of ?m] by auto
  have k4: "MkdirAll ?m fsC = (None, fsD)"
    unfolding fsD_def
  proof (rule MkdirAll_fresh)
    show "lookup fsC ?m = None" using m0 mt_ne by (simp add: lC lB)
    show "lookup fsC (butlast ?m) = Some DirObj" using bt pm bm_ne by (simp add: lC lB)
    show "entry_writable fsC ?m" using wm by (simp add: wC)
    show "\<not> disk_full fsC" using df by (simp add: wC)
  qed
  show ?thesis
    using r1 r2 k3 k4 by (auto simp: Empty_def)
qed

text \<open>
  Claim C8. When the staging and the metadata directory are not inside one another and a
  call of \<^verbatim>\<open>Empty\<close> returns no error, both directories exist and have no entries after
  it, a second call returns no error as well, and both directories exist and have no
  entries after the second call.
\<close>

theorem Empty_idempotent:
  assumes "Empty m fs = (None, fs1)"
    and "\<not> prefix (trashDir m) (metaDir m)" and "\<not> prefix (metaDir m) (trashDir m)"
  shows "ReadDir fs1 (trashDir m) = Inr [] \<and> ReadDir fs1 (metaDir m) = Inr [] \<and>
         (\<exists>fs2. Empty m fs1 = (None, fs2) \<and>
                ReadDir fs2 (trashDir m) = Inr [] \<and> ReadDir fs2 (metaDir m) = Inr [])"
proof -
  have g1: "purged m fs1" using Empty_purges [OF assms] .
  from purged_Empty [OF g1 assms(2,3)] obtain fs2 where e2: "Empty m fs1 = (None, fs2)" ..
  have g2: "purged m fs2" using Empty_purges [OF e2 assms(2,3)] .
  show ?thesis
    using purged_ReadDir [OF g1] purged_ReadDir [OF g2] e2 by blast
qed







lemma store_wf_shrinks: "store_wf m fs \<Longrightarrow> shrinks fs fs' \<Longrightarrow> store_wf m fs'"
  unfolding store_wf_def shrinks_def by blast



















lemma example_Empty: "Empty example_manager example_store = (None, example_purged)"
  by (simp add: Empty_def example_manager_def example_store_def example_purged_def
        RemoveAll_def has_stuck_def entry_writable_def MkdirAll.simps Mkdir_def lookup_def)










text \<open>Emptying the small trash, twice.\<close>

theorem Empty_idempotent_witness:
  "Empty example_manager example_store = (None, example_purged) \<and>
   ReadDir example_purged (trashDir example_manager) = Inr [] \<and>
   ReadDir example_purged (metaDir example_manager) = Inr [] \<and>
   (\<exists>fs2. Empty example_manager example_purged = (None, fs2) \<and>
          ReadDir fs2 (trashDir example_manager) = Inr [] \<and>
          ReadDir fs2 (metaDir example_manager) = Inr [])"
proof -
  have n: "\<not> prefix (trashDir example_manager) (metaDir example_manager)"
    "\<not> prefix (metaDir example_manager) (trashDir example_manager)"
    by (simp_all add: example_manager_def)
  show ?thesis
    using Empty_idempotent [OF example_Empty n] example_Empty by simp
qed

end
